theory Spec2Isabelle
  imports Complex_Main "HOL-Library.AList" "HOL-Library.Char_ord" "HOL-Library.List_Lexorder"
    "HOL-Library.Multiset" "HOL-Library.Product_Lexorder"
begin

section \<open>The result dictionary of oemof's outputlib\<close>

text \<open>
  A shallow embedding of \<^verbatim>\<open>oemof/outputlib/result_dict.py\<close>: the three index helpers
  \<^verbatim>\<open>get_tuple\<close>, \<^verbatim>\<open>get_timestep\<close> and \<^verbatim>\<open>remove_timestep\<close>, the frame built by
  \<^verbatim>\<open>results_to_df\<close> and the dictionary built by \<^verbatim>\<open>results_to_dict\<close>. pandas objects are
  modelled by the lists they hold; every exception the Python raises is a value \<open>Inl e\<close>.
\<close>

subsection \<open>Python values that occur in a Pyomo index\<close>

text \<open>
  Modelled from the spec: the class \<^verbatim>\<open>oemof.network.Node\<close> is imported, not defined, by the
  module. The spec's data model gives an entity an immutable identity, its label, and
  \<^verbatim>\<open>str\<close> of an entity is that label.
\<close>

datatype node = Node (label: string)

text \<open>
  The docstring of \<^verbatim>\<open>get_tuple\<close>: tuples from Pyomo are of type \<^verbatim>\<open>(n, n, int)\<close>,
  \<^verbatim>\<open>(n, n)\<close> and \<^verbatim>\<open>(n, int)\<close>. An element of such a tuple is a node or an int; the model
  admits any arrangement of them, of any length.
\<close>

datatype elem = is_node: ENode node | EInt int

text \<open>
  The members of a \<^verbatim>\<open>pyomo_tuple\<close> \<^verbatim>\<open>(block name, variable name, i)\<close>: two strings and the
  index \<open>i\<close> of the variable, which is a tuple, a single node, a single int, or \<^verbatim>\<open>None\<close>
  for a variable that is not indexed.
\<close>

datatype pyval = PStr string | PNone | PInt int | PNode node | PTuple "elem list"

datatype error = TypeError | ValueError | IndexError | KeyError

subsection \<open>The index helpers\<close>

text \<open>
  \<^verbatim>\<open>get_tuple\<close> returns at the first member that is a tuple or a node; when the loop runs
  out the Python function returns \<^verbatim>\<open>None\<close>, here \<open>None\<close>.
\<close>

fun get_tuple :: "pyval list \<Rightarrow> elem list option" where
  "get_tuple [] = None"
| "get_tuple (PTuple t # xs) = Some t"
| "get_tuple (PNode n # xs) = Some [ENode n]"
| "get_tuple (PStr s # xs) = get_tuple xs"
| "get_tuple (PNone # xs) = get_tuple xs"
| "get_tuple (PInt i # xs) = get_tuple xs"

text \<open>The members at which \<^verbatim>\<open>get_tuple\<close> returns: a tuple or a node.\<close>

fun is_ref :: "pyval \<Rightarrow> bool" where
  "is_ref (PTuple t) = True"
| "is_ref (PNode n) = True"
| "is_ref (PStr s) = False"
| "is_ref PNone = False"
| "is_ref (PInt i) = False"

text \<open>
  \<^verbatim>\<open>x[-1]\<close> is only evaluated when some member is not a node, so \<open>x\<close> is not empty there
  and \<open>last\<close> is the Python value.
\<close>

definition get_timestep :: "elem list \<Rightarrow> elem" where
  "get_timestep x = (if list_all is_node x then EInt 0 else last x)"

definition remove_timestep :: "elem list \<Rightarrow> elem list" where
  "remove_timestep x = (if list_all is_node x then x else butlast x)"

text \<open>
  Lines 81 to 83 of \<^verbatim>\<open>results_to_df\<close> on one row: \<^verbatim>\<open>get_tuple\<close>, then \<^verbatim>\<open>get_timestep\<close>
  and \<^verbatim>\<open>remove_timestep\<close> on its result. \<^verbatim>\<open>get_timestep(None)\<close> iterates over \<^verbatim>\<open>None\<close>,
  which raises \<^verbatim>\<open>TypeError\<close>.
\<close>

definition normalise :: "pyval list \<Rightarrow> error + (elem list \<times> elem)" where
  "normalise x =
     (case get_tuple x of
        None \<Rightarrow> Inl TypeError
      | Some t \<Rightarrow> Inr (remove_timestep t, get_timestep t))"

subsection \<open>The frame of \<^verbatim>\<open>results_to_df\<close>\<close>

text \<open>
  The solved model \<^verbatim>\<open>om\<close>, as far as the module reads it: the items of \<^verbatim>\<open>var_dict\<close>
  (line 71: block name, variable name and index of every variable, with its value, which
  Pyomo leaves \<^verbatim>\<open>None\<close> when the solver set none), the keys \<^verbatim>\<open>(bus, t)\<close> of
  \<^verbatim>\<open>om.Bus.balance\<close>, and \<^verbatim>\<open>om.dual\<close>, which is \<open>None\<close> when the model has no attribute
  \<^verbatim>\<open>dual\<close> and otherwise gives the dual of the balance constraint stored under a key.
  A value \<open>None\<close> is what pandas calls null.
\<close>

record 'v model =
  var_dict :: "((string \<times> string \<times> pyval) \<times> 'v option) list"
  balance :: "(node \<times> int) list"
  dual :: "((node \<times> int) \<times> 'v) list option"

text \<open>A row of the frame: the columns that \<^verbatim>\<open>results_to_dict\<close> reads.\<close>

record 'v row =
  variable_name :: string
  oemof_tuple :: "elem list"
  timestep :: elem
  cell_value :: "'v option"

fun traverse :: "('a \<Rightarrow> error + 'b) \<Rightarrow> 'a list \<Rightarrow> error + 'b list" where
  "traverse f [] = Inr []"
| "traverse f (x # xs) =
     (case f x of
        Inl e \<Rightarrow> Inl e
      | Inr y \<Rightarrow> (case traverse f xs of Inl e \<Rightarrow> Inl e | Inr ys \<Rightarrow> Inr (y # ys)))"

text \<open>
  One item of \<^verbatim>\<open>var_dict\<close> becomes one row: the variable name is the second member of
  the \<^verbatim>\<open>pyomo_tuple\<close>, the time step is whatever \<^verbatim>\<open>get_timestep\<close> returns, the int 0
  for a variable without time step.
\<close>

definition make_row :: "(string \<times> string \<times> pyval) \<times> 'v option \<Rightarrow> error + 'v row" where
  "make_row item =
     (case item of ((b, n, i), v) \<Rightarrow>
        (case normalise [PStr b, PStr n, i] of
           Inl e \<Rightarrow> Inl e
         | Inr (k, t) \<Rightarrow>
             Inr \<lparr>variable_name = n, oemof_tuple = k, timestep = t, cell_value = v\<rparr>))"

text \<open>
  \<^verbatim>\<open>sort_values\<close> orders the rows by relation key and time step. How two nodes compare is
  decided outside the module, and \<^verbatim>\<open>results_to_dict\<close> regroups the rows by key and
  pivots each group on its time steps, which orders them again; the model keeps the rows
  in the order of \<^verbatim>\<open>var_dict\<close>.
\<close>

definition results_to_df :: "'v model \<Rightarrow> error + 'v row list" where
  "results_to_df om = traverse make_row (var_dict om)"

subsection \<open>Frames and the pivot\<close>

text \<open>
  A pandas \<^verbatim>\<open>DataFrame\<close>: its index and its columns, each column a name and one cell per
  index entry; the cell \<open>None\<close> is null.
\<close>

record ('i, 'v) frame =
  index :: "'i list"
  columns :: "(string \<times> 'v option list) list"

text \<open>A result entry: the \<^verbatim>\<open>Series\<close> under \<^verbatim>\<open>'scalars'\<close> and the frame under \<^verbatim>\<open>'sequences'\<close>.\<close>

record ('i, 'v) entry =
  scalars :: "(string \<times> 'v option) list"
  sequences :: "('i, 'v) frame"

text \<open>
  \<^verbatim>\<open>df.groupby('oemof_tuple')\<close>: one group per relation key, with all rows that carry the
  key. pandas visits the groups in ascending order of the keys, which again rests on the
  comparison of nodes; the model visits them in the order that \<open>remdups\<close> gives. The
  order decides the order of the dictionary and which exception is raised when more than
  one group fails, and nothing else.
\<close>

definition group_of :: "elem list \<Rightarrow> 'v row list \<Rightarrow> 'v row list" where
  "group_of k df = filter (\<lambda>r. oemof_tuple r = k) df"

definition group_by_tuple :: "'v row list \<Rightarrow> (elem list \<times> 'v row list) list" where
  "group_by_tuple df =
     map (\<lambda>k. (k, group_of k df)) (remdups (map oemof_tuple df))"

definition lookup_cell :: "'v row list \<Rightarrow> elem \<Rightarrow> string \<Rightarrow> 'v option" where
  "lookup_cell rows t n =
     (case find (\<lambda>r. timestep r = t \<and> variable_name r = n) rows of
        None \<Rightarrow> None
      | Some r \<Rightarrow> cell_value r)"

text \<open>
  Modelled from the spec: the order of the time steps of a group. Int time steps are in
  ascending order. A node stands in the place of a time step only for an index outside
  the docstring's shapes, such as \<^verbatim>\<open>(0, n)\<close>; how it compares is decided by the class
  \<^verbatim>\<open>Node\<close>, outside the module. With the label as the identity of an entity, nodes are
  ordered by label, and the model puts them after the ints.
\<close>

fun step_key :: "elem \<Rightarrow> nat \<times> int \<times> string" where
  "step_key (EInt i) = (0, i, [])"
| "step_key (ENode n) = (1, 0, label n)"

definition time_steps :: "'v row list \<Rightarrow> elem list" where
  "time_steps rows = sort_key step_key (remdups (map timestep rows))"

text \<open>
  \<^verbatim>\<open>set_index('timestep')\<close> and \<^verbatim>\<open>pivot(columns='variable_name', values='value')\<close>: one
  row per time step of the group and one column per variable name, both in ascending
  order, a cell null where the group has no row for it. pandas raises \<^verbatim>\<open>ValueError\<close>
  when a time step and a name occur together twice.
\<close>

definition variable_names :: "'v row list \<Rightarrow> string list" where
  "variable_names rows = sort (remdups (map variable_name rows))"

definition pivot :: "'v row list \<Rightarrow> error + (elem, 'v) frame" where
  "pivot rows =
     (if \<not> distinct (map (\<lambda>r. (timestep r, variable_name r)) rows) then Inl ValueError
      else
        Inr \<lparr>index = time_steps rows,
             columns = map (\<lambda>n. (n, map (\<lambda>t. lookup_cell rows t n) (time_steps rows)))
                           (variable_names rows)\<rparr>)"

text \<open>
  \<^verbatim>\<open>df.index = es.timeindex\<close>: pandas raises \<^verbatim>\<open>ValueError\<close> unless the new index has as
  many entries as the frame has rows.
\<close>

definition set_index :: "'i list \<Rightarrow> ('j, 'v) frame \<Rightarrow> error + ('i, 'v) frame" where
  "set_index ti f =
     (if length ti \<noteq> length (index f) then Inl ValueError
      else Inr \<lparr>index = ti, columns = columns f\<rparr>)"

definition isnull_any :: "'v option list \<Rightarrow> bool" where
  "isnull_any c = list_ex (\<lambda>x. x = None) c"

text \<open>\<^verbatim>\<open>dropna()\<close>: the positions of the rows in which no cell of the given columns is null.\<close>

definition dropna :: "nat \<Rightarrow> (string \<times> 'v option list) list \<Rightarrow> nat list" where
  "dropna n cols = filter (\<lambda>j. list_all (\<lambda>(name, c). c ! j \<noteq> None) cols) [0..<n]"

text \<open>\<^verbatim>\<open>.iloc[0]\<close>: the first of these rows, an \<^verbatim>\<open>IndexError\<close> when there is none.\<close>

definition iloc0 :: "nat list \<Rightarrow> (string \<times> 'v option list) list \<Rightarrow> error + (string \<times> 'v option) list" where
  "iloc0 kept cols =
     (case kept of
        [] \<Rightarrow> Inl IndexError
      | j # js \<Rightarrow> Inr (map (\<lambda>(name, c). (name, c ! j)) cols))"

text \<open>The body of the loop of lines 111 to 117, for one group.\<close>

definition split_group :: "'i list \<Rightarrow> 'v row list \<Rightarrow> error + ('i, 'v) entry" where
  "split_group ti rows =
     (case pivot rows of
        Inl e \<Rightarrow> Inl e
      | Inr p \<Rightarrow>
          (case set_index ti p of
             Inl e \<Rightarrow> Inl e
           | Inr f \<Rightarrow>
               (case iloc0 (dropna (length (index f))
                              (filter (\<lambda>(name, c). isnull_any c) (columns f)))
                           (filter (\<lambda>(name, c). isnull_any c) (columns f)) of
                  Inl e \<Rightarrow> Inl e
                | Inr s \<Rightarrow>
                    Inr \<lparr>scalars = s,
                         sequences = \<lparr>index = index f,
                                      columns = filter (\<lambda>(name, c). \<not> isnull_any c) (columns f)\<rparr>\<rparr>)))"

definition split_groups ::
  "'i list \<Rightarrow> (elem list \<times> 'v row list) list \<Rightarrow> error + (elem list \<times> ('i, 'v) entry) list" where
  "split_groups ti groups =
     traverse (\<lambda>(k, rows). case split_group ti rows of Inl e \<Rightarrow> Inl e | Inr en \<Rightarrow> Inr (k, en)) groups"

text \<open>
  Lines 102 to 117 of \<^verbatim>\<open>results_to_dict\<close>: the frame, its groups, and the entry of
  every group. The first exception ends the run.
\<close>

definition assemble :: "'i list \<Rightarrow> 'v model \<Rightarrow> error + (elem list \<times> ('i, 'v) entry) list" where
  "assemble timeindex om =
     (case results_to_df om of
        Inl e \<Rightarrow> Inl e
      | Inr df \<Rightarrow> split_groups timeindex (group_by_tuple df))"

subsection \<open>Dual values of the bus balances\<close>

text \<open>
  \<^verbatim>\<open>itertools.groupby\<close> over pairs with the first component as key: a maximal run of
  pairs with the same first component becomes one group.
\<close>

function groupby_fst :: "('a \<times> 'b) list \<Rightarrow> ('a \<times> 'b list) list" where
  "groupby_fst [] = []"
| "groupby_fst ((b, t) # ps) =
     (b, t # map snd (takeWhile (\<lambda>p. fst p = b) ps))
       # groupby_fst (dropWhile (\<lambda>p. fst p = b) ps)"
  by pat_completeness auto
termination
  by (relation "measure length") (auto simp: length_dropWhile_le less_Suc_eq_le)

text \<open>
  Modelled from the spec: \<^verbatim>\<open>sorted\<close> compares the keys \<^verbatim>\<open>(bus, t)\<close> as Python tuples, the
  buses first. The comparison of two nodes is not defined in the module; with the label
  as the identity of an entity, the keys are ordered by label and then by time step.
\<close>

definition sorted_keys :: "(node \<times> int) list \<Rightarrow> (node \<times> int) list" where
  "sorted_keys ks = sort_key (\<lambda>(b, t). (label b, t)) ks"

text \<open>
  Line 123: the dual of every balance constraint of the bus. A constraint that
  \<^verbatim>\<open>om.dual\<close> does not hold is a \<^verbatim>\<open>KeyError\<close>.
\<close>

definition bus_duals :: "((node \<times> int) \<times> 'v) list \<Rightarrow> node \<Rightarrow> int list \<Rightarrow> error + 'v list" where
  "bus_duals d bus ts =
     traverse (\<lambda>t. case map_of d (bus, t) of None \<Rightarrow> Inl KeyError | Some v \<Rightarrow> Inr v) ts"

text \<open>
  Line 124, \<^verbatim>\<open>pd.DataFrame({'duals': duals}, index=es.timeindex)\<close>: a \<^verbatim>\<open>ValueError\<close> unless
  there is one value per index entry.
\<close>

definition duals_frame :: "'i list \<Rightarrow> 'v list \<Rightarrow> error + ('i, 'v) frame" where
  "duals_frame ti duals =
     (if length duals \<noteq> length ti then Inl ValueError
      else Inr \<lparr>index = ti, columns = [(''duals'', map Some duals)]\<rparr>)"

text \<open>
  \<^verbatim>\<open>frame[name] = values\<close>: a \<^verbatim>\<open>ValueError\<close> unless there is one value per index entry;
  a column of that name is replaced where it stands, a new name is added as the last
  column.
\<close>

definition set_column :: "string \<Rightarrow> 'v option list \<Rightarrow> ('i, 'v) frame \<Rightarrow> error + ('i, 'v) frame" where
  "set_column name c f =
     (if length c \<noteq> length (index f) then Inl ValueError
      else Inr \<lparr>index = index f, columns = AList.update name c (columns f)\<rparr>)"

text \<open>
  The body of the loop of lines 122 to 128 for one bus and its time steps. The result
  dictionary is an association list with distinct keys; \<open>AList.update\<close> is the
  assignment \<^verbatim>\<open>results[k] = v\<close>.
\<close>

definition add_bus_duals ::
  "'i list \<Rightarrow> ((node \<times> int) \<times> 'v) list \<Rightarrow> (elem list \<times> ('i, 'v) entry) list \<Rightarrow> node \<times> int list
     \<Rightarrow> error + (elem list \<times> ('i, 'v) entry) list" where
  "add_bus_duals ti d results g =
     (case g of (bus, ts) \<Rightarrow>
        (case bus_duals d bus ts of
           Inl e \<Rightarrow> Inl e
         | Inr duals \<Rightarrow>
             (case duals_frame ti duals of
                Inl e \<Rightarrow> Inl e
              | Inr df \<Rightarrow>
                  (case map_of results [ENode bus] of
                     None \<Rightarrow> Inr (AList.update [ENode bus] \<lparr>scalars = [], sequences = df\<rparr> results)
                   | Some en \<Rightarrow>
                       (case set_column ''duals'' (map Some duals) (sequences en) of
                          Inl e \<Rightarrow> Inl e
                        | Inr s \<Rightarrow>
                            Inr (AList.update [ENode bus]
                                   \<lparr>scalars = scalars en, sequences = s\<rparr> results))))))"

fun add_duals_loop ::
  "'i list \<Rightarrow> ((node \<times> int) \<times> 'v) list \<Rightarrow> (elem list \<times> ('i, 'v) entry) list
     \<Rightarrow> (node \<times> int list) list \<Rightarrow> error + (elem list \<times> ('i, 'v) entry) list" where
  "add_duals_loop ti d results [] = Inr results"
| "add_duals_loop ti d results (g # gs) =
     (case add_bus_duals ti d results g of
        Inl e \<Rightarrow> Inl e
      | Inr results' \<Rightarrow> add_duals_loop ti d results' gs)"

text \<open>Lines 120 to 128: nothing is added when the model has no attribute \<^verbatim>\<open>dual\<close>.\<close>

definition add_duals ::
  "'i list \<Rightarrow> 'v model \<Rightarrow> (elem list \<times> ('i, 'v) entry) list
     \<Rightarrow> error + (elem list \<times> ('i, 'v) entry) list" where
  "add_duals ti om results =
     (case dual om of
        None \<Rightarrow> Inr results
      | Some d \<Rightarrow> add_duals_loop ti d results (groupby_fst (sorted_keys (balance om))))"

subsection \<open>Keys as strings\<close>

text \<open>Python's \<^verbatim>\<open>str\<close> of an int: decimal digits, a minus sign before a negative number.\<close>

definition digit :: "nat \<Rightarrow> char" where
  "digit d = char_of (48 + d)"

function str_nat :: "nat \<Rightarrow> string" where
  "str_nat n = (if n < 10 then [digit n] else str_nat (n div 10) @ [digit (n mod 10)])"
  by pat_completeness auto
termination
  by (relation "measure id") auto

declare str_nat.simps [simp del]

definition str_int :: "int \<Rightarrow> string" where
  "str_int i = (if i < 0 then CHR ''-'' # str_nat (nat (- i)) else str_nat (nat i))"

fun str_elem :: "elem \<Rightarrow> string" where
  "str_elem (ENode n) = label n"
| "str_elem (EInt i) = str_int i"

text \<open>
  Line 132, the dictionary comprehension: the entries are visited in order and each is
  stored under the tuple of the strings of its key; a later entry with the same strings
  replaces the value of an earlier one.
\<close>

definition keys_to_strings :: "(elem list \<times> 'a) list \<Rightarrow> (string list \<times> 'a) list" where
  "keys_to_strings results = fold (\<lambda>(k, v). AList.update (map str_elem k) v) results []"

subsection \<open>\<^verbatim>\<open>results_to_dict\<close>\<close>

text \<open>
  The keys of the returned dictionary are tuples of nodes, or tuples of strings when
  \<^verbatim>\<open>keys_as_strings\<close> is set.
\<close>

datatype key = Objects "elem list" | Strings "string list"

definition results_to_dict ::
  "'i list \<Rightarrow> 'v model \<Rightarrow> bool \<Rightarrow> error + (key \<times> ('i, 'v) entry) list" where
  "results_to_dict timeindex om keys_as_strings =
     (case assemble timeindex om of
        Inl e \<Rightarrow> Inl e
      | Inr results \<Rightarrow>
          (case add_duals timeindex om results of
             Inl e \<Rightarrow> Inl e
           | Inr results' \<Rightarrow>
               Inr (if keys_as_strings
                    then map (\<lambda>(k, v). (Strings k, v)) (keys_to_strings results')
                    else map (\<lambda>(k, v). (Objects k, v)) results')))"

subsection \<open>Notions used to state the properties\<close>

text \<open>
  A variable name of a group has a missing time step when its cell is null at some time
  step of the group, because the group has no row for it or the row has no value.
\<close>

definition is_missing :: "'v row list \<Rightarrow> string \<Rightarrow> bool" where
  "is_missing rows n = list_ex (\<lambda>t. lookup_cell rows t n = None) (time_steps rows)"

text \<open>The first value of a variable name that is not null, in the order of the time steps.\<close>

definition first_non_missing :: "'v row list \<Rightarrow> string \<Rightarrow> 'v option" where
  "first_non_missing rows n =
     (case find (\<lambda>t. lookup_cell rows t n \<noteq> None) (time_steps rows) of
        None \<Rightarrow> None
      | Some t \<Rightarrow> lookup_cell rows t n)"

text \<open>A time step at which no variable name with a missing time step is null.\<close>

definition complete_step :: "'v row list \<Rightarrow> elem \<Rightarrow> bool" where
  "complete_step rows t =
     list_all (\<lambda>n. is_missing rows n \<longrightarrow> lookup_cell rows t n \<noteq> None) (variable_names rows)"

text \<open>
  The entry of a bus after its dual values are attached: a new entry when there was
  none, and otherwise the old entry with the column \<^verbatim>\<open>duals\<close> set.
\<close>

definition with_duals :: "'i list \<Rightarrow> 'v list \<Rightarrow> ('i, 'v) entry option \<Rightarrow> ('i, 'v) entry" where
  "with_duals ti duals old =
     (case old of
        None \<Rightarrow> \<lparr>scalars = [], sequences = \<lparr>index = ti, columns = [(''duals'', map Some duals)]\<rparr>\<rparr>
      | Some en \<Rightarrow>
          \<lparr>scalars = scalars en,
           sequences = \<lparr>index = index (sequences en),
                        columns = AList.update ''duals'' (map Some duals) (columns (sequences en))\<rparr>\<rparr>)"

text \<open>
  The key of an entry as the spec's key stringifier gives it: the tuple of the strings of
  its members.
\<close>

fun stringify :: "key \<Rightarrow> key" where
  "stringify (Objects k) = Strings (map str_elem k)"
| "stringify (Strings s) = Strings s"

subsection \<open>Example models\<close>

text \<open>A time index of three steps.\<close>

definition three_steps :: "string list" where
  "three_steps = [''00:00'', ''01:00'', ''02:00'']"

text \<open>
  One flow from a plant into the bus \<^verbatim>\<open>bel\<close> over three time steps, and the investment
  in that flow, a variable without time step.
\<close>

definition invest_example :: "int model" where
  "invest_example =
     \<lparr>var_dict =
        [((''Flow'', ''flow'', PTuple [ENode (Node ''pp_gas''), ENode (Node ''bel''), EInt 0]), Some 10),
         ((''Flow'', ''flow'', PTuple [ENode (Node ''pp_gas''), ENode (Node ''bel''), EInt 1]), Some 20),
         ((''Flow'', ''flow'', PTuple [ENode (Node ''pp_gas''), ENode (Node ''bel''), EInt 2]), Some 30),
         ((''InvestmentFlow'', ''invest'', PTuple [ENode (Node ''pp_gas''), ENode (Node ''bel'')]), Some 500)],
      balance = [], dual = None\<rparr>"

definition invest_rows :: "int row list" where
  "invest_rows =
     [\<lparr>variable_name = ''flow'', oemof_tuple = [ENode (Node ''pp_gas''), ENode (Node ''bel'')],
       timestep = EInt 0, cell_value = Some 10\<rparr>,
      \<lparr>variable_name = ''flow'', oemof_tuple = [ENode (Node ''pp_gas''), ENode (Node ''bel'')],
       timestep = EInt 1, cell_value = Some 20\<rparr>,
      \<lparr>variable_name = ''flow'', oemof_tuple = [ENode (Node ''pp_gas''), ENode (Node ''bel'')],
       timestep = EInt 2, cell_value = Some 30\<rparr>,
      \<lparr>variable_name = ''invest'', oemof_tuple = [ENode (Node ''pp_gas''), ENode (Node ''bel'')],
       timestep = EInt 0, cell_value = Some 500\<rparr>]"

definition invest_entry :: "(string, int) entry" where
  "invest_entry =
     \<lparr>scalars = [(''invest'', Some 500)],
      sequences = \<lparr>index = three_steps, columns = [(''flow'', [Some 10, Some 20, Some 30])]\<rparr>\<rparr>"

text \<open>
  A storage with two variables over the same three time steps: \<^verbatim>\<open>charge\<close> has no record
  at step 0 and \<^verbatim>\<open>level\<close> has none at step 2.
\<close>

definition staggered_example :: "int model" where
  "staggered_example =
     \<lparr>var_dict =
        [((''Storage'', ''charge'', PTuple [ENode (Node ''storage''), EInt 1]), Some 5),
         ((''Storage'', ''charge'', PTuple [ENode (Node ''storage''), EInt 2]), Some 6),
         ((''Storage'', ''level'', PTuple [ENode (Node ''storage''), EInt 0]), Some 1),
         ((''Storage'', ''level'', PTuple [ENode (Node ''storage''), EInt 1]), Some 2)],
      balance = [], dual = None\<rparr>"

definition staggered_rows :: "int row list" where
  "staggered_rows =
     [\<lparr>variable_name = ''charge'', oemof_tuple = [ENode (Node ''storage'')],
       timestep = EInt 1, cell_value = Some 5\<rparr>,
      \<lparr>variable_name = ''charge'', oemof_tuple = [ENode (Node ''storage'')],
       timestep = EInt 2, cell_value = Some 6\<rparr>,
      \<lparr>variable_name = ''level'', oemof_tuple = [ENode (Node ''storage'')],
       timestep = EInt 0, cell_value = Some 1\<rparr>,
      \<lparr>variable_name = ''level'', oemof_tuple = [ENode (Node ''storage'')],
       timestep = EInt 1, cell_value = Some 2\<rparr>]"



text \<open>
  The bus \<^verbatim>\<open>bel\<close> with a variable over three time steps, and balance constraints with
  dual values for \<^verbatim>\<open>bel\<close> and for a second bus \<^verbatim>\<open>bgas\<close> that has no variable of its own.
\<close>

definition dual_example :: "real model" where
  "dual_example =
     \<lparr>var_dict =
        [((''Bus'', ''excess'', PTuple [ENode (Node ''bel''), EInt 0]), Some 0),
         ((''Bus'', ''excess'', PTuple [ENode (Node ''bel''), EInt 1]), Some 4),
         ((''Bus'', ''excess'', PTuple [ENode (Node ''bel''), EInt 2]), Some 0)],
      balance = [(Node ''bgas'', 1), (Node ''bel'', 2), (Node ''bel'', 0), (Node ''bgas'', 0),
                 (Node ''bel'', 1), (Node ''bgas'', 2)],
      dual = Some [((Node ''bel'', 0), 1.1), ((Node ''bel'', 1), 2.2), ((Node ''bel'', 2), 3.3),
                   ((Node ''bgas'', 0), 0.5), ((Node ''bgas'', 1), 0.5), ((Node ''bgas'', 2), 0.7)]\<rparr>"


definition excess_assembled :: "(elem list \<times> (string, real) entry) list" where
  "excess_assembled =
     [([ENode (Node ''bel'')],
       \<lparr>scalars = [],
        sequences = \<lparr>index = three_steps,
                     columns = [(''excess'', [Some 0, Some 4, Some 0])]\<rparr>\<rparr>)]"

definition dual_final :: "(key \<times> (string, real) entry) list" where
  "dual_final =
     [(Objects [ENode (Node ''bel'')],
       \<lparr>scalars = [],
        sequences = \<lparr>index = three_steps,
                     columns = [(''excess'', [Some 0, Some 4, Some 0]),
                                (''duals'', [Some 1.1, Some 2.2, Some 3.3])]\<rparr>\<rparr>),
      (Objects [ENode (Node ''bgas'')],
       \<lparr>scalars = [],
        sequences = \<lparr>index = three_steps,
                     columns = [(''duals'', [Some 0.5, Some 0.5, Some 0.7])]\<rparr>\<rparr>)]"

text \<open>A bus labelled \<^verbatim>\<open>electricity\<close> with one variable over three time steps.\<close>

definition electricity_example :: "real model" where
  "electricity_example =
     \<lparr>var_dict =
        [((''Bus'', ''excess'', PTuple [ENode (Node ''electricity''), EInt 0]), Some 0),
         ((''Bus'', ''excess'', PTuple [ENode (Node ''electricity''), EInt 1]), Some 4),
         ((''Bus'', ''excess'', PTuple [ENode (Node ''electricity''), EInt 2]), Some 0)],
      balance = [], dual = None\<rparr>"

section \<open>Properties\<close>

subsection \<open>The index helpers\<close>

text \<open>
  Claim C9. For a non-empty index tuple the split into relation key and time step loses
  nothing: when every member is a node, the time step is 0 and the tuple is returned as
  it is; otherwise the time step is the last member, and the key followed by the time
  step is the tuple again.
\<close>

theorem normaliser_lossless:
  assumes "x \<noteq> []"
  shows "(list_all is_node x \<longrightarrow> get_timestep x = EInt 0 \<and> remove_timestep x = x) \<and>
         (\<not> list_all is_node x \<longrightarrow>
            get_timestep x = last x \<and> remove_timestep x @ [get_timestep x] = x)"
  using assms by (simp add: get_timestep_def remove_timestep_def)

theorem normaliser_lossless_witness:
  "get_timestep [ENode (Node ''bel''), ENode (Node ''demand'')] = EInt 0 \<and>
   remove_timestep [ENode (Node ''bel''), ENode (Node ''demand'')]
     = [ENode (Node ''bel''), ENode (Node ''demand'')] \<and>
   get_timestep [ENode (Node ''bel''), ENode (Node ''demand''), EInt 7] = EInt 7 \<and>
   remove_timestep [ENode (Node ''bel''), ENode (Node ''demand''), EInt 7] @ [EInt 7]
     = [ENode (Node ''bel''), ENode (Node ''demand''), EInt 7]"
  using normaliser_lossless [of "[ENode (Node ''bel''), ENode (Node ''demand'')]"]
        normaliser_lossless [of "[ENode (Node ''bel''), ENode (Node ''demand''), EInt 7]"]
  by simp

lemma takeWhile_snoc_last: "list_all P xs \<Longrightarrow> \<not> P y \<Longrightarrow> takeWhile P (xs @ [y]) = xs"
  by (induction xs) auto

text \<open>
  Claim C1. For a raw index made of entity references followed by at most one other
  element, the relation key is the longest leading run of entity references, as many as
  the index holds, and the time step is the trailing element that is not an entity, or 0
  when there is none. An index that is a single node gives the 1-tuple of that node and
  the time step 0.
\<close>

theorem normaliser_key_and_timestep:
  assumes "list_all is_node (butlast idx)"
  shows "normalise [PStr b, PStr v, PTuple idx]
           = Inr (takeWhile is_node idx,
                  if idx \<noteq> [] \<and> \<not> is_node (last idx) then last idx else EInt 0) \<and>
         length (takeWhile is_node idx) = length (filter is_node idx) \<and>
         normalise [PStr b, PStr v, PNode n] = Inr ([ENode n], EInt 0)"
proof (cases "list_all is_node idx")
  case True
  then have tw: "takeWhile is_node idx = idx" and fl: "filter is_node idx = idx"
    by (simp_all add: list_all_iff)
  from True have lst: "idx \<noteq> [] \<Longrightarrow> is_node (last idx)"
    by (simp add: list_all_iff)
  from True have "normalise [PStr b, PStr v, PTuple idx] = Inr (idx, EInt 0)"
    by (simp add: normalise_def get_timestep_def remove_timestep_def)
  moreover have "normalise [PStr b, PStr v, PNode n] = Inr ([ENode n], EInt 0)"
    by (simp add: normalise_def get_timestep_def remove_timestep_def)
  ultimately show ?thesis
    using lst by (auto simp: tw fl)
next
  case False
  then have ne: "idx \<noteq> []" by auto
  then have split: "idx = butlast idx @ [last idx]" by simp
  have nl: "\<not> is_node (last idx)"
  proof
    assume "is_node (last idx)"
    with assms have "list_all is_node (butlast idx @ [last idx])" by simp
    with split False show False by simp
  qed
  have tw: "takeWhile is_node idx = butlast idx"
    using takeWhile_snoc_last [OF assms nl] split by simp
  have "filter is_node (butlast idx @ [last idx]) = butlast idx"
    using assms nl by (simp add: list_all_iff)
  with split have fl: "filter is_node idx = butlast idx" by simp
  from False ne nl tw fl show ?thesis
    by (simp add: normalise_def get_timestep_def remove_timestep_def)
qed

theorem normaliser_key_and_timestep_witness:
  "normalise [PStr ''Flow'', PStr ''flow'', PTuple [ENode (Node ''pp_gas''), ENode (Node ''bel''), EInt 5]]
     = Inr ([ENode (Node ''pp_gas''), ENode (Node ''bel'')], EInt 5) \<and>
   normalise [PStr ''InvestmentFlow'', PStr ''invest'', PTuple [ENode (Node ''pp_gas''), ENode (Node ''bel'')]]
     = Inr ([ENode (Node ''pp_gas''), ENode (Node ''bel'')], EInt 0) \<and>
   normalise [PStr ''Storage'', PStr ''invest'', PNode (Node ''storage'')]
     = Inr ([ENode (Node ''storage'')], EInt 0)"
  using normaliser_key_and_timestep
          [of "[ENode (Node ''pp_gas''), ENode (Node ''bel''), EInt 5]" "''Flow''" "''flow''" "Node ''storage''"]
        normaliser_key_and_timestep
          [of "[ENode (Node ''pp_gas''), ENode (Node ''bel'')]" "''InvestmentFlow''" "''invest''" "Node ''storage''"]
        normaliser_key_and_timestep
          [of "[]" "''Storage''" "''invest''" "Node ''storage''"]
  by simp

subsection \<open>Failure on a record without entity\<close>

lemma get_tuple_None_iff: "get_tuple x = None \<longleftrightarrow> \<not> list_ex is_ref x"
  by (induction x rule: get_tuple.induct) auto

lemma make_row_error: "make_row item = Inl e \<Longrightarrow> e = TypeError"
  by (auto simp: make_row_def normalise_def split: prod.splits option.splits sum.splits elem.splits)

lemma traverse_error_in:
  assumes "x \<in> set xs" and "f x = Inl e" and "\<And>y e'. f y = Inl e' \<Longrightarrow> e' = e"
  shows "traverse f xs = Inl e"
  using assms(1,2)
proof (induction xs)
  case Nil
  then show ?case by simp
next
  case (Cons a xs)
  then show ?case
    by (cases "f a"; cases "traverse f xs") (auto dest: assms(3))
qed

text \<open>
  Claim C6. When the index of some record holds no tuple and no node, the extraction
  fails: \<^verbatim>\<open>get_tuple\<close> returns \<^verbatim>\<open>None\<close>, on which \<^verbatim>\<open>get_timestep\<close> raises
  \<^verbatim>\<open>TypeError\<close> before any result entry is built.
\<close>

theorem missing_index_fails:
  assumes "((b, n, i), v) \<in> set (var_dict om)"
    and "\<not> list_ex is_ref [PStr b, PStr n, i]"
  shows "results_to_dict timeindex om keys_as_strings = Inl TypeError"
proof -
  have "get_tuple [PStr b, PStr n, i] = None"
    using assms(2) get_tuple_None_iff by blast
  then have "make_row ((b, n, i), v) = Inl TypeError"
    by (simp add: make_row_def normalise_def)
  then have "traverse make_row (var_dict om) = Inl TypeError"
    using traverse_error_in [OF assms(1)] make_row_error by blast
  then show ?thesis
    by (simp add: results_to_dict_def assemble_def results_to_df_def)
qed

theorem missing_index_fails_witness:
  "results_to_dict [0 :: nat, 1]
     \<lparr>var_dict = [((''Flow'', ''flow'', PTuple [ENode (Node ''a''), ENode (Node ''bel''), EInt 0]), Some (10 :: int)),
                  ((''Block'', ''total'', PNone), Some 3)],
      balance = [], dual = None\<rparr> False = Inl TypeError"
  using missing_index_fails [of "''Block''" "''total''" PNone "Some (3 :: int)"
      "\<lparr>var_dict = [((''Flow'', ''flow'', PTuple [ENode (Node ''a''), ENode (Node ''bel''), EInt 0]), Some (10 :: int)),
                  ((''Block'', ''total'', PNone), Some 3)],
      balance = [], dual = None\<rparr>" "[0 :: nat, 1]" False]
  by simp

subsection \<open>Empty input\<close>

text \<open>
  Claim C8. Without variable records, and with no balance constraint or no dual
  attribute, the result is the empty dictionary and no error.
\<close>

theorem empty_input_empty_store:
  "results_to_dict timeindex \<lparr>var_dict = [], balance = [], dual = d\<rparr> keys_as_strings = Inr [] \<and>
   results_to_dict timeindex \<lparr>var_dict = [], balance = ks, dual = None\<rparr> keys_as_strings = Inr []"
  by (simp add: results_to_dict_def assemble_def results_to_df_def group_by_tuple_def split_groups_def
      add_duals_def sorted_keys_def keys_to_strings_def split: option.split)


subsection \<open>The entry of one group\<close>

lemma filter_upt_Cons:
  assumes "filter P [0..<n] = j # js"
  shows "j < n \<and> P j \<and> (\<forall>i<j. \<not> P i)"
proof -
  from assms obtain us vs where eq: "[0..<n] = us @ j # vs"
    and no: "\<forall>u\<in>set us. \<not> P u" and Pj: "P j"
    by (auto simp: filter_eq_Cons_iff)
  have len: "length us < n"
    using arg_cong [OF eq, of length] by simp
  have "[0..<n] ! length us = j"
    by (simp add: eq)
  with len have j: "j = length us" by simp
  have "\<not> P i" if "i < j" for i
  proof -
    from that j len have "[0..<n] ! i = us ! i"
      by (simp add: eq nth_append)
    with that j len have "i = us ! i" by simp
    with that j have "i \<in> set us" by (metis nth_mem)
    with no show ?thesis by blast
  qed
  with len j Pj show ?thesis by blast
qed

lemma isnull_any_column:
  "isnull_any (map (\<lambda>t. lookup_cell rows t n) (time_steps rows)) = is_missing rows n"
  unfolding isnull_any_def is_missing_def list_ex_iff
  by (metis (mono_tags, lifting) imageE image_eqI list.set_map)

lemma filter_columns:
  "filter (\<lambda>(name, c). Q (isnull_any c))
     (map (\<lambda>n. (n, map (\<lambda>t. lookup_cell rows t n) (time_steps rows))) ns)
   = map (\<lambda>n. (n, map (\<lambda>t. lookup_cell rows t n) (time_steps rows)))
       (filter (\<lambda>n. Q (is_missing rows n)) ns)"
  by (induction ns) (simp_all add: isnull_any_column)

lemma dropna_complete:
  assumes "j < length (time_steps rows)"
  shows "list_all (\<lambda>(name, c). c ! j \<noteq> None)
           (map (\<lambda>n. (n, map (\<lambda>t. lookup_cell rows t n) (time_steps rows)))
              (filter (is_missing rows) (variable_names rows)))
         = complete_step rows (time_steps rows ! j)"
  using assms by (auto simp: complete_step_def list_all_iff)

lemma split_group_Inr:
  assumes "split_group ti rows = Inr en"
  shows "distinct (map (\<lambda>r. (timestep r, variable_name r)) rows)"
    and "length (time_steps rows) = length ti"
    and "\<exists>j<length ti. complete_step rows (time_steps rows ! j) \<and>
           (\<forall>i<j. \<not> complete_step rows (time_steps rows ! i)) \<and>
           scalars en = map (\<lambda>n. (n, lookup_cell rows (time_steps rows ! j) n))
                          (filter (is_missing rows) (variable_names rows))"
    and "sequences en =
           \<lparr>index = ti,
            columns = map (\<lambda>n. (n, map (\<lambda>t. lookup_cell rows t n) (time_steps rows)))
                        (filter (\<lambda>n. \<not> is_missing rows n) (variable_names rows))\<rparr>"
proof -
  show d: "distinct (map (\<lambda>r. (timestep r, variable_name r)) rows)"
    using assms by (auto simp: split_group_def pivot_def split: if_splits)
  then have p: "pivot rows = Inr \<lparr>index = time_steps rows,
             columns = map (\<lambda>n. (n, map (\<lambda>t. lookup_cell rows t n) (time_steps rows)))
                           (variable_names rows)\<rparr>"
    by (simp add: pivot_def)
  show l: "length (time_steps rows) = length ti"
    using assms by (auto simp: split_group_def p set_index_def split: if_splits)
  let ?sc = "map (\<lambda>n. (n, map (\<lambda>t. lookup_cell rows t n) (time_steps rows)))
                (filter (is_missing rows) (variable_names rows))"
  have sc: "filter (\<lambda>(name, c). isnull_any c)
     (map (\<lambda>n. (n, map (\<lambda>t. lookup_cell rows t n) (time_steps rows))) (variable_names rows)) = ?sc"
    using filter_columns [of "\<lambda>b. b" rows "variable_names rows"] by simp
  have sq: "filter (\<lambda>(name, c). \<not> isnull_any c)
     (map (\<lambda>n. (n, map (\<lambda>t. lookup_cell rows t n) (time_steps rows))) (variable_names rows))
     = map (\<lambda>n. (n, map (\<lambda>t. lookup_cell rows t n) (time_steps rows)))
                (filter (\<lambda>n. \<not> is_missing rows n) (variable_names rows))"
    using filter_columns [of "\<lambda>b. \<not> b" rows "variable_names rows"] by simp
  from assms obtain s where s: "iloc0 (dropna (length ti) ?sc) ?sc = Inr s"
    and en: "en = \<lparr>scalars = s, sequences = \<lparr>index = ti,
            columns = map (\<lambda>n. (n, map (\<lambda>t. lookup_cell rows t n) (time_steps rows)))
                        (filter (\<lambda>n. \<not> is_missing rows n) (variable_names rows))\<rparr>\<rparr>"
    by (auto simp: split_group_def p set_index_def l sc sq split: sum.splits)
  from en show "sequences en =
           \<lparr>index = ti,
            columns = map (\<lambda>n. (n, map (\<lambda>t. lookup_cell rows t n) (time_steps rows)))
                        (filter (\<lambda>n. \<not> is_missing rows n) (variable_names rows))\<rparr>"
    by simp
  from s obtain j js where kept: "dropna (length ti) ?sc = j # js"
    and sj: "s = map (\<lambda>(name, c). (name, c ! j)) ?sc"
    by (auto simp: iloc0_def split: list.splits)
  from kept have first: "j < length ti"
      "list_all (\<lambda>(name, c). c ! j \<noteq> None) ?sc"
      "\<forall>i<j. \<not> list_all (\<lambda>(name, c). c ! i \<noteq> None) ?sc"
    using filter_upt_Cons [of "\<lambda>j. list_all (\<lambda>(name, c). c ! j \<noteq> None) ?sc" "length ti" j js]
    by (simp_all add: dropna_def)
  have c1: "complete_step rows (time_steps rows ! j)"
    using first(1,2) dropna_complete [of j rows] l by simp
  have c2: "\<forall>i<j. \<not> complete_step rows (time_steps rows ! i)"
    using first(1,3) dropna_complete [of _ rows] l by simp
  have "s = map (\<lambda>n. (n, lookup_cell rows (time_steps rows ! j) n))
                          (filter (is_missing rows) (variable_names rows))"
    using sj first(1) l by simp
  with en c1 c2 first(1)
  show "\<exists>j<length ti. complete_step rows (time_steps rows ! j) \<and>
           (\<forall>i<j. \<not> complete_step rows (time_steps rows ! i)) \<and>
           scalars en = map (\<lambda>n. (n, lookup_cell rows (time_steps rows ! j) n))
                          (filter (is_missing rows) (variable_names rows))"
    by auto
qed


lemma traverse_Inr_all2:
  "traverse f xs = Inr ys \<Longrightarrow> list_all2 (\<lambda>x y. f x = Inr y) xs ys"
  by (induction xs arbitrary: ys) (auto split: sum.splits)


lemma set_time_steps [simp]: "set (time_steps rows) = timestep ` set rows"
  by (simp add: time_steps_def)

lemma set_variable_names [simp]: "set (variable_names rows) = variable_name ` set rows"
  by (simp add: variable_names_def)


lemma distinct_variable_names [simp]: "distinct (variable_names rows)"
  by (simp add: variable_names_def)

lemma split_groups_Inr:
  assumes "split_groups ti groups = Inr res"
  shows "map fst res = map fst groups"
    and "(k, en) \<in> set res \<Longrightarrow> \<exists>rows. (k, rows) \<in> set groups \<and> split_group ti rows = Inr en"
proof -
  let ?g = "\<lambda>(k, rows). case split_group ti rows of Inl e \<Rightarrow> Inl e | Inr en \<Rightarrow> Inr (k, en)"
  have all2: "list_all2 (\<lambda>x y. ?g x = Inr y) groups res"
    using assms traverse_Inr_all2 [of ?g groups res] by (simp add: split_groups_def)
  have step: "?g x = Inr y \<Longrightarrow> fst y = fst x \<and> split_group ti (snd x) = Inr (snd y)" for x y
    by (cases x; cases y) (auto split: sum.splits)
  from all2 have "list_all2 (\<lambda>x y. fst y = fst x \<and> split_group ti (snd x) = Inr (snd y)) groups res"
    by (rule list_all2_mono) (use step in blast)
  then have fsts: "list_all2 (\<lambda>x y. fst x = fst y) groups res"
    and ex: "\<And>y. y \<in> set res \<Longrightarrow> \<exists>x\<in>set groups. fst y = fst x \<and> split_group ti (snd x) = Inr (snd y)"
    by (induction rule: list_all2_induct) auto
  from fsts show "map fst res = map fst groups"
    by (induction rule: list_all2_induct) auto
  show "\<exists>rows. (k, rows) \<in> set groups \<and> split_group ti rows = Inr en" if "(k, en) \<in> set res"
    using ex [OF that] by force
qed

lemma assemble_Inr:
  assumes "results_to_df om = Inr df" and "assemble ti om = Inr res"
  shows "map fst res = remdups (map oemof_tuple df)"
    and "map_of res k = Some en \<Longrightarrow> k \<in> oemof_tuple ` set df \<and> split_group ti (group_of k df) = Inr en"
proof -
  from assms have sg: "split_groups ti (group_by_tuple df) = Inr res"
    by (simp add: assemble_def)
  have fg: "map fst (group_by_tuple df) = remdups (map oemof_tuple df)"
    by (simp add: group_by_tuple_def comp_def)
  with split_groups_Inr(1) [OF sg] show "map fst res = remdups (map oemof_tuple df)"
    by simp
  assume "map_of res k = Some en"
  then have "(k, en) \<in> set res" by (rule map_of_SomeD)
  from split_groups_Inr(2) [OF sg this]
  show "k \<in> oemof_tuple ` set df \<and> split_group ti (group_of k df) = Inr en"
    by (auto simp: group_by_tuple_def)
qed

lemma find_first:
  assumes "j < length xs" and "P (xs ! j)" and "\<forall>i<j. \<not> P (xs ! i)"
  shows "find P xs = Some (xs ! j)"
  using assms by (auto simp: find_Some_iff)

lemma map_of_graph:
  "n \<in> set ns \<Longrightarrow> map_of (map (\<lambda>n. (n, f n)) ns) n = Some (f n)"
  by (induction ns) auto

subsection \<open>Scalars and sequences of a relation key\<close>

text \<open>
  Claim C5, as amended. In the entry that is built for a relation key, the scalars are
  the variable names of the group that are null at one time step or more, and the columns
  of the sequence table are the variable names that are null at none.
\<close>

theorem scalar_iff_some_step_missing:
  assumes "results_to_df om = Inr df" and "assemble ti om = Inr res"
    and "map_of res k = Some en"
  shows "fst ` set (scalars en)
           = {n \<in> variable_name ` set (group_of k df). is_missing (group_of k df) n} \<and>
         fst ` set (columns (sequences en))
           = {n \<in> variable_name ` set (group_of k df). \<not> is_missing (group_of k df) n}"
proof -
  from assemble_Inr(2) [OF assms] have sg: "split_group ti (group_of k df) = Inr en"
    by simp
  from split_group_Inr(3) [OF sg] split_group_Inr(4) [OF sg] show ?thesis
    by (auto simp: image_iff)
qed

theorem scalar_iff_some_step_missing_witness:
  "results_to_df invest_example = Inr invest_rows \<and>
   assemble three_steps invest_example
     = Inr [([ENode (Node ''pp_gas''), ENode (Node ''bel'')], invest_entry)] \<and>
   fst ` set (scalars invest_entry)
     = {n \<in> variable_name ` set (group_of [ENode (Node ''pp_gas''), ENode (Node ''bel'')] invest_rows).
          is_missing (group_of [ENode (Node ''pp_gas''), ENode (Node ''bel'')] invest_rows) n} \<and>
   fst ` set (columns (sequences invest_entry))
     = {n \<in> variable_name ` set (group_of [ENode (Node ''pp_gas''), ENode (Node ''bel'')] invest_rows).
          \<not> is_missing (group_of [ENode (Node ''pp_gas''), ENode (Node ''bel'')] invest_rows) n}"
proof -
  have a: "results_to_df invest_example = Inr invest_rows"
    by code_simp
  have b: "assemble three_steps invest_example
             = Inr [([ENode (Node ''pp_gas''), ENode (Node ''bel'')], invest_entry)]"
    by code_simp
  have c: "map_of [([ENode (Node ''pp_gas''), ENode (Node ''bel'')], invest_entry)]
             [ENode (Node ''pp_gas''), ENode (Node ''bel'')] = Some invest_entry"
    by simp
  from scalar_iff_some_step_missing [OF a b c] a b show ?thesis
    by blast
qed

text \<open>
  The claim as the spec words it fails on the investment example: \<^verbatim>\<open>invest\<close> has a value
  at time step 0, so it is not null for all time steps, and it is a scalar and no
  sequence column.
\<close>

theorem scalar_only_if_all_null_counterexample:
  "results_to_df invest_example = Inr invest_rows \<and>
   \<not> list_all (\<lambda>t. lookup_cell invest_rows t ''invest'' = None) (time_steps invest_rows) \<and>
   results_to_dict three_steps invest_example False
     = Inr [(Objects [ENode (Node ''pp_gas''), ENode (Node ''bel'')],
             \<lparr>scalars = [(''invest'', Some 500)],
              sequences = \<lparr>index = three_steps,
                           columns = [(''flow'', [Some 10, Some 20, Some 30])]\<rparr>\<rparr>)]"
proof -
  have "results_to_df invest_example = Inr invest_rows"
    by code_simp
  moreover have "\<not> list_all (\<lambda>t. lookup_cell invest_rows t ''invest'' = None) (time_steps invest_rows)"
    by code_simp
  moreover have "results_to_dict three_steps invest_example False
     = Inr [(Objects [ENode (Node ''pp_gas''), ENode (Node ''bel'')],
             \<lparr>scalars = [(''invest'', Some 500)],
              sequences = \<lparr>index = three_steps,
                           columns = [(''flow'', [Some 10, Some 20, Some 30])]\<rparr>\<rparr>)]"
    by code_simp
  ultimately show ?thesis by blast
qed

text \<open>
  Claim C2, as amended. In the entry that is built for a relation key, a variable name
  with a missing time step is a scalar whose value is read at the first time step at
  which no such variable name of the group is null; a variable name without missing time step is a
  column of the sequence table that holds its values in the order of the time steps. The
  table is indexed by the time index, the group has as many time steps as the time index
  has entries, and every column has that many rows.
\<close>

theorem scalar_value_and_sequence_alignment:
  assumes "results_to_df om = Inr df" and "assemble ti om = Inr res"
    and "map_of res k = Some en" and "r \<in> set (group_of k df)"
  shows "(is_missing (group_of k df) (variable_name r) \<longrightarrow>
            (\<exists>t. find (complete_step (group_of k df)) (time_steps (group_of k df)) = Some t \<and>
                 lookup_cell (group_of k df) t (variable_name r) \<noteq> None \<and>
                 map_of (scalars en) (variable_name r)
                   = Some (lookup_cell (group_of k df) t (variable_name r)))) \<and>
         (\<not> is_missing (group_of k df) (variable_name r) \<longrightarrow>
            map_of (columns (sequences en)) (variable_name r)
              = Some (map (\<lambda>t. lookup_cell (group_of k df) t (variable_name r))
                        (time_steps (group_of k df)))) \<and>
         index (sequences en) = ti \<and>
         length (time_steps (group_of k df)) = length ti \<and>
         list_all (\<lambda>(name, c). length c = length ti) (columns (sequences en))"
proof -
  let ?g = "group_of k df" and ?n = "variable_name r"
  from assemble_Inr(2) [OF assms(1,2,3)] have sg: "split_group ti ?g = Inr en"
    by simp
  note len = split_group_Inr(2) [OF sg]
  note seq = split_group_Inr(4) [OF sg]
  from assms(4) have mem: "?n \<in> set (variable_names ?g)" by simp
  from split_group_Inr(3) [OF sg] obtain j where j: "j < length ti"
    and cj: "complete_step ?g (time_steps ?g ! j)"
    and first: "\<forall>i<j. \<not> complete_step ?g (time_steps ?g ! i)"
    and sc: "scalars en = map (\<lambda>n. (n, lookup_cell ?g (time_steps ?g ! j) n))
                          (filter (is_missing ?g) (variable_names ?g))"
    by blast
  have fnd: "find (complete_step ?g) (time_steps ?g) = Some (time_steps ?g ! j)"
    using j cj first len by (intro find_first) simp_all
  have a: "\<exists>t. find (complete_step ?g) (time_steps ?g) = Some t \<and>
                 lookup_cell ?g t ?n \<noteq> None \<and>
                 map_of (scalars en) ?n = Some (lookup_cell ?g t ?n)" if miss: "is_missing ?g ?n"
  proof -
    from miss mem have "?n \<in> set (filter (is_missing ?g) (variable_names ?g))" by simp
    then have "map_of (scalars en) ?n = Some (lookup_cell ?g (time_steps ?g ! j) ?n)"
      unfolding sc by (rule map_of_graph)
    moreover from cj miss mem have "lookup_cell ?g (time_steps ?g ! j) ?n \<noteq> None"
      unfolding complete_step_def list_all_iff by blast
    ultimately show ?thesis using fnd by blast
  qed
  have b: "map_of (columns (sequences en)) ?n
              = Some (map (\<lambda>t. lookup_cell ?g t ?n) (time_steps ?g))" if "\<not> is_missing ?g ?n"
  proof -
    from that mem have "?n \<in> set (filter (\<lambda>n. \<not> is_missing ?g n) (variable_names ?g))" by simp
    then show ?thesis
      unfolding seq by (simp add: map_of_graph)
  qed
  have c: "list_all (\<lambda>(name, c). length c = length ti) (columns (sequences en))"
    unfolding seq by (simp add: list_all_iff len)
  from a b c len seq show ?thesis by simp
qed

theorem scalar_value_and_sequence_alignment_witness:
  "results_to_df invest_example = Inr invest_rows \<and>
   assemble three_steps invest_example
     = Inr [([ENode (Node ''pp_gas''), ENode (Node ''bel'')], invest_entry)] \<and>
   map_of (scalars invest_entry) ''invest'' = Some (Some 500) \<and>
   map_of (columns (sequences invest_entry)) ''flow'' = Some [Some 10, Some 20, Some 30] \<and>
   index (sequences invest_entry) = three_steps"
proof -
  let ?k = "[ENode (Node ''pp_gas''), ENode (Node ''bel'')]"
  let ?flow = "\<lparr>variable_name = ''flow'', oemof_tuple = ?k, timestep = EInt 0, cell_value = Some (10 :: int)\<rparr>"
  let ?invest = "\<lparr>variable_name = ''invest'', oemof_tuple = ?k, timestep = EInt 0, cell_value = Some (500 :: int)\<rparr>"
  have a: "results_to_df invest_example = Inr invest_rows"
    by code_simp
  have b: "assemble three_steps invest_example = Inr [(?k, invest_entry)]"
    by code_simp
  have c: "map_of [(?k, invest_entry)] ?k = Some invest_entry"
    by simp
  have d: "?flow \<in> set (group_of ?k invest_rows)"
    by (simp add: group_of_def invest_rows_def)
  have e: "?invest \<in> set (group_of ?k invest_rows)"
    by (simp add: group_of_def invest_rows_def)
  have f: "\<not> is_missing (group_of ?k invest_rows) ''flow''"
    by code_simp
  have g: "is_missing (group_of ?k invest_rows) ''invest''"
    by code_simp
  have h: "map (\<lambda>t. lookup_cell (group_of ?k invest_rows) t ''flow'') (time_steps (group_of ?k invest_rows))
             = [Some 10, Some 20, Some 30]"
    by code_simp
  have i: "map_of (scalars invest_entry) ''invest'' = Some (Some 500)"
    by code_simp
  from scalar_value_and_sequence_alignment [OF a b c d] f h
  have "map_of (columns (sequences invest_entry)) ''flow'' = Some [Some 10, Some 20, Some 30]"
    and "index (sequences invest_entry) = three_steps"
    by simp_all
  moreover from scalar_value_and_sequence_alignment [OF a b c e] g i
  have "map_of (scalars invest_entry) ''invest'' = Some (Some 500)"
    by simp
  ultimately show ?thesis using a b by blast
qed

text \<open>
  The claim as the spec words it fails on the storage example: both variable names have
  a missing time step, the only time step at which neither is null is step 1, and the
  scalar \<^verbatim>\<open>level\<close> is 2, the value at step 1, while its first value that is not missing is
  1, at step 0.
\<close>

theorem first_non_missing_value_counterexample:
  "results_to_df staggered_example = Inr staggered_rows \<and>
   is_missing staggered_rows ''level'' \<and>
   first_non_missing staggered_rows ''level'' = Some 1 \<and>
   results_to_dict three_steps staggered_example False
     = Inr [(Objects [ENode (Node ''storage'')],
             \<lparr>scalars = [(''charge'', Some 5), (''level'', Some 2)],
              sequences = \<lparr>index = three_steps, columns = []\<rparr>\<rparr>)]"
proof -
  have "results_to_df staggered_example = Inr staggered_rows"
    by code_simp
  moreover have "is_missing staggered_rows ''level''"
    by code_simp
  moreover have "first_non_missing staggered_rows ''level'' = Some 1"
    by code_simp
  moreover have "results_to_dict three_steps staggered_example False
     = Inr [(Objects [ENode (Node ''storage'')],
             \<lparr>scalars = [(''charge'', Some 5), (''level'', Some 2)],
              sequences = \<lparr>index = three_steps, columns = []\<rparr>\<rparr>)]"
    by code_simp
  ultimately show ?thesis by blast
qed


subsection \<open>Record counts and failing groups\<close>





subsection \<open>The groups of balance keys\<close>

lemma label_inj: "label a = label b \<Longrightarrow> a = b"
  by (cases a; cases b) simp

lemma dropWhile_other_bus:
  fixes ps :: "(node \<times> 'b) list"
  assumes "sorted (map (label \<circ> fst) ((b, t) # ps))"
  shows "\<forall>p\<in>set (dropWhile (\<lambda>p. fst p = b) ps). fst p \<noteq> b"
proof (cases "dropWhile (\<lambda>p. fst p = b) ps")
  case Nil
  then show ?thesis by (metis empty_iff empty_set)
next
  case (Cons q qs)
  then have q: "fst q \<noteq> b"
    and ps: "ps = takeWhile (\<lambda>p. fst p = b) ps @ q # qs"
    unfolding dropWhile_eq_Cons_conv by blast+
  have s: "sorted (map (label \<circ> fst) ((b, t) # takeWhile (\<lambda>p. fst p = b) ps @ q # qs))"
    using assms by (simp only: ps [symmetric])
  then have lo: "label b \<le> label (fst q)"
    by (auto simp: sorted_append)
  from s have hi: "\<forall>p\<in>set qs. label (fst q) \<le> label (fst p)"
    by (auto simp: sorted_append)
  show ?thesis
  proof
    fix p assume "p \<in> set (dropWhile (\<lambda>p. fst p = b) ps)"
    then have "p = q \<or> p \<in> set qs" using Cons by simp
    then show "fst p \<noteq> b"
    proof
      assume "p = q" with q show ?thesis by simp
    next
      assume "p \<in> set qs"
      with hi have "label (fst q) \<le> label (fst p)" by blast
      show ?thesis
      proof
        assume "fst p = b"
        with \<open>label (fst q) \<le> label (fst p)\<close> lo have "label (fst q) = label b" by simp
        with q label_inj show False by blast
      qed
    qed
  qed
qed

lemma groupby_fst_sorted:
  fixes ps :: "(node \<times> 'b) list"
  assumes "sorted (map (label \<circ> fst) ps)"
  shows "distinct (map fst (groupby_fst ps)) \<and>
         set (groupby_fst ps) = (\<lambda>b. (b, map snd (filter (\<lambda>p. fst p = b) ps))) ` fst ` set ps"
  using assms
proof (induction ps rule: groupby_fst.induct)
  case 1
  then show ?case by simp
next
  case (2 b t ps)
  define tw where "tw = takeWhile (\<lambda>p. fst p = b) ps"
  define dw where "dw = dropWhile (\<lambda>p. fst p = b) ps"
  have ps: "ps = tw @ dw" by (simp add: tw_def dw_def)
  have g: "groupby_fst ((b, t) # ps) = (b, t # map snd tw) # groupby_fst dw"
    by (simp add: tw_def dw_def)
  have tw: "\<forall>p\<in>set tw. fst p = b"
    unfolding tw_def by (auto dest: set_takeWhileD)
  have dw: "\<forall>p\<in>set dw. fst p \<noteq> b"
    unfolding dw_def using dropWhile_other_bus [OF "2.prems"] .
  from "2.prems" have "sorted (map (label \<circ> fst) ps)" by (simp add: comp_def)
  then have "sorted (map (label \<circ> fst) dw)"
    unfolding ps map_append sorted_append by blast
  from "2.IH" [folded dw_def, OF this] have dist: "distinct (map fst (groupby_fst dw))"
    and sets: "set (groupby_fst dw) = (\<lambda>b. (b, map snd (filter (\<lambda>p. fst p = b) dw))) ` fst ` set dw"
    by simp_all
  have fb: "filter (\<lambda>p. fst p = b) ps = tw"
    unfolding ps using tw dw by (simp add: filter_id_conv filter_empty_conv)
  have fo: "filter (\<lambda>p. fst p = c) ps = filter (\<lambda>p. fst p = c) dw" if "c \<noteq> b" for c
    unfolding ps using tw that by (simp add: filter_empty_conv)
  have fsts: "fst ` set ps = fst ` set tw \<union> fst ` set dw"
    unfolding ps by (simp add: image_Un)
  have notin: "b \<notin> fst ` set dw" using dw by auto
  have keys: "fst ` set (groupby_fst dw) = fst ` set dw"
    unfolding sets by force
  have "distinct (map fst (groupby_fst ((b, t) # ps)))"
    unfolding g using dist notin keys by simp
  moreover have "set (groupby_fst ((b, t) # ps))
      = (\<lambda>c. (c, map snd (filter (\<lambda>p. fst p = c) ((b, t) # ps)))) ` fst ` set ((b, t) # ps)"
  proof -
    have old: "(\<lambda>c. (c, map snd (filter (\<lambda>p. fst p = c) ((b, t) # ps)))) ` fst ` set dw
          = set (groupby_fst dw)"
      unfolding sets using notin fo by (intro image_cong) auto
    have new: "(\<lambda>c. (c, map snd (filter (\<lambda>p. fst p = c) ((b, t) # ps)))) b = (b, t # map snd tw)"
      using fb by simp
    have "fst ` set tw \<subseteq> {b}" using tw by auto
    then have "fst ` set ((b, t) # ps) = insert b (fst ` set dw)"
      using fsts by auto
    then have "(\<lambda>c. (c, map snd (filter (\<lambda>p. fst p = c) ((b, t) # ps)))) ` fst ` set ((b, t) # ps)
        = insert (b, t # map snd tw) (set (groupby_fst dw))"
      unfolding old [symmetric] new [symmetric] by (simp only: image_insert)
    then show ?thesis
      unfolding g by simp
  qed
  ultimately show ?case by blast
qed

lemma sorted_fst_of_pairs:
  fixes f :: "'a \<Rightarrow> 'k::linorder \<times> 't::linorder"
  shows "sorted (map f xs) \<Longrightarrow> sorted (map (fst \<circ> f) xs)"
  by (induction xs) (auto simp: less_eq_prod_def)

lemma sorted_keys_by_label: "sorted (map (label \<circ> fst) (sorted_keys ks))"
proof -
  have "sorted (map (\<lambda>(b, t). (label b, t :: int)) (sorted_keys ks))"
    unfolding sorted_keys_def by (rule sorted_sort_key)
  from sorted_fst_of_pairs [OF this] show ?thesis
    by (simp add: comp_def case_prod_beta)
qed

lemma sorted_snd_same_fst:
  fixes xs :: "('k::linorder \<times> 't::linorder) list"
  shows "sorted xs \<Longrightarrow> \<forall>p\<in>set xs. fst p = c \<Longrightarrow> sorted (map snd xs)"
  by (induction xs) (auto simp: less_eq_prod_def)

lemma bus_steps_sorted:
  "map snd (filter (\<lambda>p. fst p = b) (sorted_keys ks)) = sort (map snd (filter (\<lambda>p. fst p = b) ks))"
proof -
  let ?f = "\<lambda>(b, t). (label b, t :: int)"
  let ?ys = "filter (\<lambda>p. fst p = b) (sorted_keys ks)"
  have "sorted (map ?f (sorted_keys ks))"
    unfolding sorted_keys_def by (rule sorted_sort_key)
  then have "sorted (map ?f ?ys)" by (rule sorted_filter)
  moreover have "\<forall>p\<in>set (map ?f ?ys). fst p = label b" by auto
  ultimately have "sorted (map snd (map ?f ?ys))" by (rule sorted_snd_same_fst)
  moreover have "map snd (map ?f ?ys) = map snd ?ys" by (simp add: case_prod_beta comp_def)
  ultimately have s: "sorted (map snd ?ys)" by (simp only:)
  have "mset (map snd ?ys) = mset (map snd (filter (\<lambda>p. fst p = b) ks))"
    by (simp add: sorted_keys_def)
  from properties_for_sort [OF this s] show ?thesis by simp
qed

lemma bus_groups:
  "distinct (map fst (groupby_fst (sorted_keys ks)))"
  "set (groupby_fst (sorted_keys ks))
     = (\<lambda>b. (b, sort (map snd (filter (\<lambda>p. fst p = b) ks)))) ` fst ` set ks"
proof -
  note g = groupby_fst_sorted [OF sorted_keys_by_label, of ks]
  from g show "distinct (map fst (groupby_fst (sorted_keys ks)))" by simp
  have "set (sorted_keys ks) = set ks" by (simp add: sorted_keys_def)
  with g show "set (groupby_fst (sorted_keys ks))
     = (\<lambda>b. (b, sort (map snd (filter (\<lambda>p. fst p = b) ks)))) ` fst ` set ks"
    by (simp add: bus_steps_sorted)
qed


subsection \<open>Attaching dual values\<close>

lemma bus_duals_Inr:
  "bus_duals d b ts = Inr duals \<Longrightarrow> map (\<lambda>t. map_of d (b, t)) ts = map Some duals"
  unfolding bus_duals_def
  by (induction ts arbitrary: duals) (auto split: option.splits sum.splits)


lemma add_bus_duals_Inr:
  assumes "add_bus_duals ti d res (b, ts) = Inr res'"
  shows "\<exists>duals. map (\<lambda>t. map_of d (b, t)) ts = map Some duals \<and> length ts = length ti \<and>
           res' = AList.update [ENode b] (with_duals ti duals (map_of res [ENode b])) res"
proof -
  from assms obtain duals where bd: "bus_duals d b ts = Inr duals"
    by (auto simp: add_bus_duals_def split: sum.splits)
  from bus_duals_Inr [OF bd] have m: "map (\<lambda>t. map_of d (b, t)) ts = map Some duals" .
  then have l: "length ts = length duals"
    using map_eq_imp_length_eq by blast
  from assms bd have l2: "length duals = length ti"
    by (auto simp: add_bus_duals_def duals_frame_def split: if_splits)
  from assms bd l2 have "res' = AList.update [ENode b] (with_duals ti duals (map_of res [ENode b])) res"
    by (auto simp: add_bus_duals_def duals_frame_def set_column_def with_duals_def
        split: option.splits if_splits)
  with m l l2 show ?thesis by auto
qed


lemma add_duals_loop_Inr:
  assumes "add_duals_loop ti d res gs = Inr res'" and "distinct (map fst gs)"
  shows "(\<forall>k. k \<notin> (\<lambda>g. [ENode (fst g)]) ` set gs \<longrightarrow> map_of res' k = map_of res k) \<and>
         (\<forall>b ts. (b, ts) \<in> set gs \<longrightarrow>
            (\<exists>duals. map (\<lambda>t. map_of d (b, t)) ts = map Some duals \<and> length ts = length ti \<and>
               map_of res' [ENode b] = Some (with_duals ti duals (map_of res [ENode b]))))"
  using assms
proof (induction gs arbitrary: res)
  case Nil
  then show ?case by simp
next
  case (Cons g gs)
  obtain b ts where g: "g = (b, ts)" by (cases g)
  from Cons.prems(1) obtain res1 where step: "add_bus_duals ti d res (b, ts) = Inr res1"
    and rest: "add_duals_loop ti d res1 gs = Inr res'"
    by (auto simp: g split: sum.splits)
  from add_bus_duals_Inr [OF step] obtain duals
    where m: "map (\<lambda>t. map_of d (b, t)) ts = map Some duals" and l: "length ts = length ti"
      and r1: "res1 = AList.update [ENode b] (with_duals ti duals (map_of res [ENode b])) res"
    by blast
  have mo: "map_of res1 = (map_of res)([ENode b] \<mapsto> with_duals ti duals (map_of res [ENode b]))"
    unfolding r1 by (rule update_conv')
  from Cons.prems(2) have dist: "distinct (map fst gs)" and nb: "b \<notin> fst ` set gs"
    by (simp_all add: g)
  note IH = Cons.IH [OF rest dist]
  have nk: "[ENode b] \<notin> (\<lambda>g. [ENode (fst g)]) ` set gs"
    using nb by auto
  have frame: "map_of res' k = map_of res k" if "k \<notin> (\<lambda>g. [ENode (fst g)]) ` set (g # gs)" for k
  proof -
    from that have "k \<noteq> [ENode b]" and "k \<notin> (\<lambda>g. [ENode (fst g)]) ` set gs"
      by (simp_all add: g)
    with IH mo show ?thesis by simp
  qed
  have eff: "\<exists>duals. map (\<lambda>t. map_of d (c, t)) us = map Some duals \<and> length us = length ti \<and>
               map_of res' [ENode c] = Some (with_duals ti duals (map_of res [ENode c]))"
    if "(c, us) \<in> set (g # gs)" for c us
  proof (cases "(c, us) = (b, ts)")
    case True
    from IH nk have "map_of res' [ENode b] = map_of res1 [ENode b]" by blast
    with mo m l True show ?thesis by auto
  next
    case False
    with that have in_gs: "(c, us) \<in> set gs" by (auto simp: g)
    with nb have "c \<noteq> b" by force
    then have "map_of res1 [ENode c] = map_of res [ENode c]" by (simp add: mo)
    with IH in_gs show ?thesis by metis
  qed
  from frame eff show ?case by blast
qed


lemma add_duals_Inr:
  assumes "add_duals ti om res = Inr res'"
  shows "\<forall>k. (\<forall>b\<in>fst ` set (balance om). k \<noteq> [ENode b]) \<longrightarrow> map_of res' k = map_of res k"
    and "dual om = Some d \<Longrightarrow> (b, t0) \<in> set (balance om) \<Longrightarrow>
           \<exists>duals. map (\<lambda>t. map_of d (b, t)) (sort (map snd (filter (\<lambda>p. fst p = b) (balance om))))
                      = map Some duals \<and>
                   length (filter (\<lambda>p. fst p = b) (balance om)) = length ti \<and>
                   map_of res' [ENode b] = Some (with_duals ti duals (map_of res [ENode b]))"
proof -
  let ?gs = "groupby_fst (sorted_keys (balance om))"
  show "\<forall>k. (\<forall>b\<in>fst ` set (balance om). k \<noteq> [ENode b]) \<longrightarrow> map_of res' k = map_of res k"
  proof (cases "dual om")
    case None
    with assms show ?thesis by (simp add: add_duals_def)
  next
    case (Some d)
    with assms have loop: "add_duals_loop ti d res ?gs = Inr res'"
      by (simp add: add_duals_def)
    have "(\<lambda>g. [ENode (fst g)]) ` set ?gs = (\<lambda>b. [ENode b]) ` fst ` set (balance om)"
      unfolding bus_groups(2) by (simp add: image_image)
    with add_duals_loop_Inr [OF loop bus_groups(1)] show ?thesis
      by auto
  qed
  assume d: "dual om = Some d" and b: "(b, t0) \<in> set (balance om)"
  from assms d have loop: "add_duals_loop ti d res ?gs = Inr res'"
    by (simp add: add_duals_def)
  from b have "(b, sort (map snd (filter (\<lambda>p. fst p = b) (balance om)))) \<in> set ?gs"
    unfolding bus_groups(2) by force
  with add_duals_loop_Inr [OF loop bus_groups(1)]
  show "\<exists>duals. map (\<lambda>t. map_of d (b, t)) (sort (map snd (filter (\<lambda>p. fst p = b) (balance om))))
                      = map Some duals \<and>
                   length (filter (\<lambda>p. fst p = b) (balance om)) = length ti \<and>
                   map_of res' [ENode b] = Some (with_duals ti duals (map_of res [ENode b]))"
    by fastforce
qed



lemma map_of_Objects:
  "map_of (map (\<lambda>(k, v). (Objects k, v)) al) (Objects k) = map_of al k"
  by (induction al) auto

lemma results_to_dict_Inr:
  assumes "assemble ti om = Inr results" and "results_to_dict ti om False = Inr final"
  shows "\<exists>res'. add_duals ti om results = Inr res' \<and> (\<forall>k. map_of final (Objects k) = map_of res' k)"
  using assms by (auto simp: results_to_dict_def map_of_Objects split: sum.splits)

lemma update_new_key: "k \<notin> fst ` set al \<Longrightarrow> AList.update k v al = al @ [(k, v)]"
  by (induction al) auto

subsection \<open>When the steps succeed\<close>

lemma traverse_succeeds:
  "(\<forall>x\<in>set xs. \<exists>y. f x = Inr y) \<Longrightarrow> \<exists>ys. traverse f xs = Inr ys"
  by (induction xs) (auto split: sum.splits)

lemma bus_duals_succeeds:
  "(\<forall>t\<in>set ts. map_of d (b, t) \<noteq> None) \<Longrightarrow> \<exists>duals. bus_duals d b ts = Inr duals"
  unfolding bus_duals_def by (rule traverse_succeeds) (auto split: option.splits)

lemma add_bus_duals_succeeds:
  assumes "\<forall>t\<in>set ts. map_of d (b, t) \<noteq> None" and "length ts = length ti"
    and "\<forall>en. map_of res [ENode b] = Some en \<longrightarrow> length (index (sequences en)) = length ti"
  shows "\<exists>res'. add_bus_duals ti d res (b, ts) = Inr res'"
proof -
  from bus_duals_succeeds [OF assms(1)] obtain duals where bd: "bus_duals d b ts = Inr duals"
    by blast
  from bus_duals_Inr [OF bd] have "length ts = length duals"
    using map_eq_imp_length_eq by blast
  with assms(2,3) bd show ?thesis
    by (auto simp: add_bus_duals_def duals_frame_def set_column_def split: option.splits)
qed

lemma add_duals_loop_succeeds:
  assumes "\<forall>g\<in>set gs. (\<forall>t\<in>set (snd g). map_of d (fst g, t) \<noteq> None) \<and> length (snd g) = length ti"
    and "\<forall>k en. map_of res k = Some en \<longrightarrow> length (index (sequences en)) = length ti"
  shows "\<exists>res'. add_duals_loop ti d res gs = Inr res'"
  using assms
proof (induction gs arbitrary: res)
  case Nil
  then show ?case by simp
next
  case (Cons g gs)
  obtain b ts where g: "g = (b, ts)" by (cases g)
  from Cons.prems have "\<forall>t\<in>set ts. map_of d (b, t) \<noteq> None" and "length ts = length ti"
    and "\<forall>en. map_of res [ENode b] = Some en \<longrightarrow> length (index (sequences en)) = length ti"
    by (simp_all add: g)
  from add_bus_duals_succeeds [OF this] obtain res1
    where step: "add_bus_duals ti d res (b, ts) = Inr res1" by blast
  from add_bus_duals_Inr [OF step] obtain duals
    where l: "length ts = length ti"
      and r1: "res1 = AList.update [ENode b] (with_duals ti duals (map_of res [ENode b])) res"
    by blast
  have mo: "map_of res1 = (map_of res)([ENode b] \<mapsto> with_duals ti duals (map_of res [ENode b]))"
    unfolding r1 by (rule update_conv')
  have "length (index (sequences (with_duals ti duals (map_of res [ENode b])))) = length ti"
    using Cons.prems(2) by (auto simp: with_duals_def split: option.splits)
  with Cons.prems(2) mo
  have inv: "\<forall>k en. map_of res1 k = Some en \<longrightarrow> length (index (sequences en)) = length ti"
    by auto
  from Cons.prems(1) have "\<forall>g\<in>set gs. (\<forall>t\<in>set (snd g). map_of d (fst g, t) \<noteq> None) \<and> length (snd g) = length ti"
    by simp
  from Cons.IH [OF this inv] step show ?case by (simp add: g)
qed

lemma assemble_index:
  assumes "assemble ti om = Inr results" and "map_of results k = Some en"
  shows "index (sequences en) = ti"
proof -
  from assms(1) obtain df where df: "results_to_df om = Inr df"
    by (auto simp: assemble_def split: sum.splits)
  from assemble_Inr(2) [OF df assms] have "split_group ti (group_of k df) = Inr en" by simp
  from split_group_Inr(4) [OF this] show ?thesis by simp
qed

lemma add_duals_succeeds:
  assumes "assemble ti om = Inr results" and "dual om = Some d"
    and "\<forall>p\<in>set (balance om). map_of d p \<noteq> None"
    and "\<forall>c\<in>fst ` set (balance om). length (filter (\<lambda>p. fst p = c) (balance om)) = length ti"
  shows "\<exists>res'. add_duals ti om results = Inr res'"
proof -
  let ?gs = "groupby_fst (sorted_keys (balance om))"
  have "\<forall>g\<in>set ?gs. (\<forall>t\<in>set (snd g). map_of d (fst g, t) \<noteq> None) \<and> length (snd g) = length ti"
    unfolding bus_groups(2) using assms(3,4) by auto
  moreover have "\<forall>k en. map_of results k = Some en \<longrightarrow> length (index (sequences en)) = length ti"
    using assemble_index [OF assms(1)] by auto
  ultimately have "\<exists>res'. add_duals_loop ti d results ?gs = Inr res'"
    by (rule add_duals_loop_succeeds)
  with assms(2) show ?thesis by (simp add: add_duals_def)
qed

lemma split_group_succeeds:
  assumes "distinct (map (\<lambda>r. (timestep r, variable_name r)) g)"
    and "length (time_steps g) = length ti"
    and "t \<in> set (time_steps g)" and "complete_step g t"
  shows "\<exists>en. split_group ti g = Inr en"
proof -
  from assms(3) obtain j where j: "j < length (time_steps g)" and t: "time_steps g ! j = t"
    by (metis in_set_conv_nth)
  let ?sc = "map (\<lambda>n. (n, map (\<lambda>t. lookup_cell g t n) (time_steps g)))
                (filter (is_missing g) (variable_names g))"
  have sc: "filter (\<lambda>(name, c). isnull_any c)
     (map (\<lambda>n. (n, map (\<lambda>t. lookup_cell g t n) (time_steps g))) (variable_names g)) = ?sc"
    using filter_columns [of "\<lambda>b. b" g "variable_names g"] by simp
  have "list_all (\<lambda>(name, c). c ! j \<noteq> None) ?sc"
    using dropna_complete [OF j] assms(4) t by simp
  with j assms(2) have "j \<in> set (dropna (length ti) ?sc)"
    by (simp add: dropna_def)
  then obtain i js where "dropna (length ti) ?sc = i # js"
    by (cases "dropna (length ti) ?sc") auto
  then have "iloc0 (dropna (length ti) ?sc) ?sc = Inr (map (\<lambda>(name, c). (name, c ! i)) ?sc)"
    by (simp add: iloc0_def)
  with assms(1,2) sc show ?thesis
    by (simp add: split_group_def pivot_def set_index_def)
qed

text \<open>
  A variable name that is null at every time step of its group leaves no row after
  \<^verbatim>\<open>dropna()\<close>: the group has no entry.
\<close>

lemma all_null_variable_fails:
  assumes "r \<in> set g"
    and "list_all (\<lambda>t. lookup_cell g t (variable_name r) = None) (time_steps g)"
  shows "\<exists>e. split_group ti g = Inl e"
proof (cases "split_group ti g")
  case (Inl e)
  then show ?thesis by blast
next
  case (Inr en)
  from split_group_Inr(2,3) [OF Inr] obtain j where j: "j < length (time_steps g)"
    and c: "complete_step g (time_steps g ! j)"
    by auto
  from j have mem: "time_steps g ! j \<in> set (time_steps g)"
    by (rule nth_mem)
  with assms(2) have null: "lookup_cell g (time_steps g ! j) (variable_name r) = None"
    unfolding list_all_iff by blast
  with mem have "is_missing g (variable_name r)"
    unfolding is_missing_def list_ex_iff by blast
  moreover from assms(1) have "variable_name r \<in> set (variable_names g)" by simp
  ultimately have "lookup_cell g (time_steps g ! j) (variable_name r) \<noteq> None"
    using c unfolding complete_step_def list_all_iff by blast
  with null show ?thesis by simp
qed

subsection \<open>Misaligned lengths\<close>




subsection \<open>The dual values of a bus\<close>

text \<open>
  Claim C4. Let the groups be assembled, and let the model have a dual value for every
  balance constraint and, for every bus, as many balance constraints as the time index
  has entries. Then \<^verbatim>\<open>results_to_dict\<close> returns a dictionary, and every bus with a balance
  constraint has an entry under its 1-tuple. Its dual values, in ascending order of the
  time steps, are as many as the time index has entries. When the assembled groups hold an
  entry for the bus, the returned entry is that entry with the column \<^verbatim>\<open>duals\<close> added at
  the end of its sequence table (or set in place, should a variable of that name be
  there); otherwise the returned entry has no scalars and a sequence table that holds the
  column \<^verbatim>\<open>duals\<close> only.
\<close>

theorem duals_attached_per_bus:
  assumes "assemble ti om = Inr results" and "dual om = Some d"
    and "\<forall>p\<in>set (balance om). map_of d p \<noteq> None"
    and "\<forall>c\<in>fst ` set (balance om).
           length (filter (\<lambda>p. fst p = c) (balance om)) = length ti"
    and "(b, t0) \<in> set (balance om)"
  shows "\<exists>final duals.
           results_to_dict ti om False = Inr final \<and>
           map (\<lambda>t. map_of d (b, t)) (sort (map snd (filter (\<lambda>p. fst p = b) (balance om))))
             = map Some duals \<and>
           length duals = length ti \<and>
           (case map_of results [ENode b] of
              None \<Rightarrow>
                map_of final (Objects [ENode b])
                  = Some \<lparr>scalars = [],
                          sequences = \<lparr>index = ti, columns = [(''duals'', map Some duals)]\<rparr>\<rparr>
            | Some en \<Rightarrow>
                map_of final (Objects [ENode b])
                  = Some \<lparr>scalars = scalars en,
                          sequences =
                            \<lparr>index = index (sequences en),
                             columns =
                               (if ''duals'' \<in> fst ` set (columns (sequences en))
                                then AList.update ''duals'' (map Some duals) (columns (sequences en))
                                else columns (sequences en) @ [(''duals'', map Some duals)])\<rparr>\<rparr>)"
proof -
  from add_duals_succeeds [OF assms(1,2,3,4)] obtain res'
    where ad: "add_duals ti om results = Inr res'"
    by blast
  define final where "final = map (\<lambda>(k, v). (Objects k, v)) res'"
  have ret: "results_to_dict ti om False = Inr final"
    using assms(1) ad by (simp add: results_to_dict_def final_def)
  have fin: "map_of final (Objects k) = map_of res' k" for k
    unfolding final_def by (rule map_of_Objects)
  from add_duals_Inr(2) [OF ad assms(2,5)] obtain duals
    where m: "map (\<lambda>t. map_of d (b, t)) (sort (map snd (filter (\<lambda>p. fst p = b) (balance om))))
                = map Some duals"
      and l: "length (filter (\<lambda>p. fst p = b) (balance om)) = length ti"
      and r: "map_of res' [ENode b] = Some (with_duals ti duals (map_of results [ENode b]))"
    by blast
  from m have "length (sort (map snd (filter (\<lambda>p. fst p = b) (balance om)))) = length duals"
    using map_eq_imp_length_eq by fastforce
  with l have ld: "length duals = length ti" by simp
  from r fin have "map_of final (Objects [ENode b])
      = Some (with_duals ti duals (map_of results [ENode b]))"
    by simp
  then have "case map_of results [ENode b] of
              None \<Rightarrow>
                map_of final (Objects [ENode b])
                  = Some \<lparr>scalars = [],
                          sequences = \<lparr>index = ti, columns = [(''duals'', map Some duals)]\<rparr>\<rparr>
            | Some en \<Rightarrow>
                map_of final (Objects [ENode b])
                  = Some \<lparr>scalars = scalars en,
                          sequences =
                            \<lparr>index = index (sequences en),
                             columns =
                               (if ''duals'' \<in> fst ` set (columns (sequences en))
                                then AList.update ''duals'' (map Some duals) (columns (sequences en))
                                else columns (sequences en) @ [(''duals'', map Some duals)])\<rparr>\<rparr>"
    by (simp add: with_duals_def update_new_key split: option.splits)
  with ret m ld show ?thesis by blast
qed

theorem duals_attached_per_bus_witness:
  "assemble three_steps dual_example = Inr excess_assembled \<and>
   results_to_dict three_steps dual_example False = Inr dual_final \<and>
   map_of dual_final (Objects [ENode (Node ''bel'')])
     = Some \<lparr>scalars = [],
             sequences = \<lparr>index = three_steps,
                          columns = [(''excess'', [Some 0, Some 4, Some 0]),
                                     (''duals'', [Some 1.1, Some 2.2, Some 3.3])]\<rparr>\<rparr> \<and>
   map_of dual_final (Objects [ENode (Node ''bgas'')])
     = Some \<lparr>scalars = [],
             sequences = \<lparr>index = three_steps,
                          columns = [(''duals'', [Some 0.5, Some 0.5, Some 0.7])]\<rparr>\<rparr>"
proof -
  let ?d = "[((Node ''bel'', 0), 1.1 :: real), ((Node ''bel'', 1), 2.2), ((Node ''bel'', 2), 3.3),
            ((Node ''bgas'', 0), 0.5), ((Node ''bgas'', 1), 0.5), ((Node ''bgas'', 2), 0.7)]"
  have a: "assemble three_steps dual_example = Inr excess_assembled"
    by code_simp
  have b: "results_to_dict three_steps dual_example False = Inr dual_final"
    by code_simp
  have c: "dual dual_example = Some ?d"
    by (simp add: dual_example_def)
  have known: "\<forall>p\<in>set (balance dual_example). map_of ?d p \<noteq> None"
    by code_simp
  have counts: "\<forall>c\<in>fst ` set (balance dual_example).
      length (filter (\<lambda>p. fst p = c) (balance dual_example)) = length three_steps"
    by code_simp
  have d: "(Node ''bel'', 0) \<in> set (balance dual_example)"
    and e: "(Node ''bgas'', 0) \<in> set (balance dual_example)"
    by (simp_all add: dual_example_def)
  have bel: "map (\<lambda>t. map_of ?d (Node ''bel'', t))
               (sort (map snd (filter (\<lambda>p. fst p = Node ''bel'') (balance dual_example))))
             = [Some 1.1, Some 2.2, Some 3.3]"
    by code_simp
  have bgas: "map (\<lambda>t. map_of ?d (Node ''bgas'', t))
               (sort (map snd (filter (\<lambda>p. fst p = Node ''bgas'') (balance dual_example))))
             = [Some 0.5, Some 0.5, Some 0.7]"
    by code_simp
  have old: "map_of excess_assembled [ENode (Node ''bel'')]
               = Some \<lparr>scalars = [],
                       sequences = \<lparr>index = three_steps,
                                    columns = [(''excess'', [Some 0, Some 4, Some 0])]\<rparr>\<rparr>"
    and new: "map_of excess_assembled [ENode (Node ''bgas'')] = None"
    by (simp_all add: excess_assembled_def)
  have inj: "map Some xs = map Some ys \<Longrightarrow> xs = ys" for xs ys :: "real list"
    by (simp add: inj_map_eq_map)
  from duals_attached_per_bus [OF a c known counts d] obtain final duals
    where f: "results_to_dict three_steps dual_example False = Inr final"
      and m: "map (\<lambda>t. map_of ?d (Node ''bel'', t))
               (sort (map snd (filter (\<lambda>p. fst p = Node ''bel'') (balance dual_example))))
             = map Some duals"
      and r: "case map_of excess_assembled [ENode (Node ''bel'')] of
              None \<Rightarrow>
                map_of final (Objects [ENode (Node ''bel'')])
                  = Some \<lparr>scalars = [],
                          sequences = \<lparr>index = three_steps, columns = [(''duals'', map Some duals)]\<rparr>\<rparr>
            | Some en \<Rightarrow>
                map_of final (Objects [ENode (Node ''bel'')])
                  = Some \<lparr>scalars = scalars en,
                          sequences =
                            \<lparr>index = index (sequences en),
                             columns =
                               (if ''duals'' \<in> fst ` set (columns (sequences en))
                                then AList.update ''duals'' (map Some duals) (columns (sequences en))
                                else columns (sequences en) @ [(''duals'', map Some duals)])\<rparr>\<rparr>"
    by blast
  from f b have final: "final = dual_final" by simp
  from m have "map Some duals = map Some [1.1, 2.2, 3.3]"
    unfolding bel by simp
  then have "duals = [1.1, 2.2, 3.3]" by (rule inj)
  with r have 1: "map_of dual_final (Objects [ENode (Node ''bel'')])
     = Some \<lparr>scalars = [],
             sequences = \<lparr>index = three_steps,
                          columns = [(''excess'', [Some 0, Some 4, Some 0]),
                                     (''duals'', [Some 1.1, Some 2.2, Some 3.3])]\<rparr>\<rparr>"
    unfolding old final by simp
  from duals_attached_per_bus [OF a c known counts e] obtain final' duals'
    where f': "results_to_dict three_steps dual_example False = Inr final'"
      and m': "map (\<lambda>t. map_of ?d (Node ''bgas'', t))
               (sort (map snd (filter (\<lambda>p. fst p = Node ''bgas'') (balance dual_example))))
             = map Some duals'"
      and r': "case map_of excess_assembled [ENode (Node ''bgas'')] of
              None \<Rightarrow>
                map_of final' (Objects [ENode (Node ''bgas'')])
                  = Some \<lparr>scalars = [],
                          sequences = \<lparr>index = three_steps, columns = [(''duals'', map Some duals')]\<rparr>\<rparr>
            | Some en \<Rightarrow>
                map_of final' (Objects [ENode (Node ''bgas'')])
                  = Some \<lparr>scalars = scalars en,
                          sequences =
                            \<lparr>index = index (sequences en),
                             columns =
                               (if ''duals'' \<in> fst ` set (columns (sequences en))
                                then AList.update ''duals'' (map Some duals') (columns (sequences en))
                                else columns (sequences en) @ [(''duals'', map Some duals')])\<rparr>\<rparr>"
    by blast
  from f' b have final': "final' = dual_final" by simp
  from m' have "map Some duals' = map Some [0.5, 0.5, 0.7]"
    unfolding bgas by simp
  then have "duals' = [0.5, 0.5, 0.7]" by (rule inj)
  with r' have 2: "map_of dual_final (Objects [ENode (Node ''bgas'')])
     = Some \<lparr>scalars = [],
             sequences = \<lparr>index = three_steps,
                          columns = [(''duals'', [Some 0.5, Some 0.5, Some 0.7])]\<rparr>\<rparr>"
    unfolding new final' by simp
  from a b 1 2 show ?thesis by blast
qed

text \<open>
  Claim C10. Attaching the dual values adds entries under 1-tuples of buses with a
  balance constraint only, and every entry of the assembled groups is still there: with
  the same scalars, the same index of the sequence table and the same column under every
  name but \<^verbatim>\<open>duals\<close>, and as it was when its key is not the 1-tuple of such a bus.
\<close>

theorem duals_only_touch_bus_entries:
  assumes "assemble ti om = Inr results" and "results_to_dict ti om False = Inr final"
  shows "(\<forall>k. map_of final (Objects k) \<noteq> None \<longrightarrow>
            map_of results k \<noteq> None \<or> (\<exists>b\<in>fst ` set (balance om). k = [ENode b])) \<and>
         (\<forall>k en. map_of results k = Some en \<longrightarrow>
            (\<exists>en'. map_of final (Objects k) = Some en' \<and>
                   scalars en' = scalars en \<and>
                   index (sequences en') = index (sequences en) \<and>
                   (\<forall>n. n \<noteq> ''duals'' \<longrightarrow>
                      map_of (columns (sequences en')) n = map_of (columns (sequences en)) n) \<and>
                   ((\<forall>b\<in>fst ` set (balance om). k \<noteq> [ENode b]) \<longrightarrow> en' = en)))"
proof -
  from results_to_dict_Inr [OF assms] obtain res'
    where ad: "add_duals ti om results = Inr res'"
      and fin: "\<And>k. map_of final (Objects k) = map_of res' k"
    by blast
  note frame = add_duals_Inr(1) [OF ad]
  have new: "map_of results k \<noteq> None \<or> (\<exists>b\<in>fst ` set (balance om). k = [ENode b])"
    if "map_of final (Objects k) \<noteq> None" for k
    using that frame fin by metis
  have old: "\<exists>en'. map_of final (Objects k) = Some en' \<and>
                   scalars en' = scalars en \<and>
                   index (sequences en') = index (sequences en) \<and>
                   (\<forall>n. n \<noteq> ''duals'' \<longrightarrow>
                      map_of (columns (sequences en')) n = map_of (columns (sequences en)) n) \<and>
                   ((\<forall>b\<in>fst ` set (balance om). k \<noteq> [ENode b]) \<longrightarrow> en' = en)"
    if en: "map_of results k = Some en" for k en
  proof (cases "\<forall>b\<in>fst ` set (balance om). k \<noteq> [ENode b]")
    case True
    with frame fin en have "map_of final (Objects k) = Some en" by simp
    then show ?thesis by simp
  next
    case False
    then obtain b t0 where b: "(b, t0) \<in> set (balance om)" and k: "k = [ENode b]" by auto
    show ?thesis
    proof (cases "dual om")
      case None
      with ad have "res' = results" by (simp add: add_duals_def)
      with fin en have "map_of final (Objects k) = Some en" by simp
      then show ?thesis by simp
    next
      case (Some d)
      from add_duals_Inr(2) [OF ad Some b] obtain duals
        where "map_of res' [ENode b] = Some (with_duals ti duals (map_of results [ENode b]))"
        by blast
      with fin en k have "map_of final (Objects k) = Some (with_duals ti duals (Some en))"
        by simp
      moreover have "scalars (with_duals ti duals (Some en)) = scalars en"
        and "index (sequences (with_duals ti duals (Some en))) = index (sequences en)"
        and "\<forall>n. n \<noteq> ''duals'' \<longrightarrow>
               map_of (columns (sequences (with_duals ti duals (Some en)))) n
                 = map_of (columns (sequences en)) n"
        by (simp_all add: with_duals_def update_conv')
      ultimately show ?thesis using False by blast
    qed
  qed
  from new old show ?thesis by blast
qed

theorem duals_only_touch_bus_entries_witness:
  "assemble three_steps dual_example = Inr excess_assembled \<and>
   results_to_dict three_steps dual_example False = Inr dual_final \<and>
   (\<exists>en'. map_of dual_final (Objects [ENode (Node ''bel'')]) = Some en' \<and>
      scalars en' = [] \<and>
      index (sequences en') = three_steps \<and>
      map_of (columns (sequences en')) ''excess'' = Some [Some 0, Some 4, Some 0]) \<and>
   map_of excess_assembled [ENode (Node ''bgas'')] = None \<and>
   (\<exists>b\<in>fst ` set (balance dual_example). [ENode (Node ''bgas'')] = [ENode b])"
proof -
  let ?en = "\<lparr>scalars = [],
             sequences = \<lparr>index = three_steps,
                          columns = [(''excess'', [Some (0 :: real), Some 4, Some 0])]\<rparr>\<rparr>"
  have a: "assemble three_steps dual_example = Inr excess_assembled"
    by code_simp
  have b: "results_to_dict three_steps dual_example False = Inr dual_final"
    by code_simp
  have old: "map_of excess_assembled [ENode (Node ''bel'')] = Some ?en"
    by (simp add: excess_assembled_def)
  have new: "map_of dual_final (Objects [ENode (Node ''bgas'')]) \<noteq> None"
    by (simp add: dual_final_def)
  note frame = duals_only_touch_bus_entries [OF a b]
  from frame old obtain en' where "map_of dual_final (Objects [ENode (Node ''bel'')]) = Some en'"
    and "scalars en' = scalars ?en" and "index (sequences en') = index (sequences ?en)"
    and "\<forall>n. n \<noteq> ''duals'' \<longrightarrow>
           map_of (columns (sequences en')) n = map_of (columns (sequences ?en)) n"
    by blast
  then have 1: "\<exists>en'. map_of dual_final (Objects [ENode (Node ''bel'')]) = Some en' \<and>
      scalars en' = [] \<and>
      index (sequences en') = three_steps \<and>
      map_of (columns (sequences en')) ''excess'' = Some [Some 0, Some 4, Some 0]"
    by auto
  have none: "map_of excess_assembled [ENode (Node ''bgas'')] = None"
    by (simp add: excess_assembled_def)
  from frame new
  have "map_of excess_assembled [ENode (Node ''bgas'')] \<noteq> None \<or>
      (\<exists>b\<in>fst ` set (balance dual_example). [ENode (Node ''bgas'')] = [ENode b])"
    by blast
  with none
  have 2: "\<exists>b\<in>fst ` set (balance dual_example). [ENode (Node ''bgas'')] = [ENode b]"
    by blast
  from a b 1 2 none show ?thesis by blast
qed


subsection \<open>Keys as strings\<close>

lemma add_duals_loop_distinct:
  "add_duals_loop ti d res gs = Inr res' \<Longrightarrow> distinct (map fst res) \<Longrightarrow> distinct (map fst res')"
proof (induction gs arbitrary: res)
  case Nil
  then show ?case by simp
next
  case (Cons g gs)
  obtain b ts where g: "g = (b, ts)" by (cases g)
  from Cons.prems(1) obtain res1 where step: "add_bus_duals ti d res (b, ts) = Inr res1"
    and rest: "add_duals_loop ti d res1 gs = Inr res'"
    by (auto simp: g split: sum.splits)
  from add_bus_duals_Inr [OF step] Cons.prems(2) have "distinct (map fst res1)"
    by (auto simp: distinct_update)
  with Cons.IH rest show ?case by blast
qed

lemma add_duals_distinct:
  "add_duals ti om res = Inr res' \<Longrightarrow> distinct (map fst res) \<Longrightarrow> distinct (map fst res')"
  by (auto simp: add_duals_def split: option.splits dest: add_duals_loop_distinct)

lemma fold_update_fresh:
  "distinct (map fst acc @ map (\<lambda>x. f (fst x)) xs) \<Longrightarrow>
   fold (\<lambda>(k, v). AList.update (f k) v) xs acc = acc @ map (\<lambda>(k, v). (f k, v)) xs"
proof (induction xs arbitrary: acc)
  case Nil
  then show ?case by simp
next
  case (Cons x xs)
  obtain k v where x: "x = (k, v)" by (cases x)
  from Cons.prems have fresh: "f k \<notin> fst ` set acc"
    by (auto simp: x)
  then have upd: "AList.update (f k) v acc = acc @ [(f k, v)]"
    by (rule update_new_key)
  from Cons.prems have "distinct (map fst (acc @ [(f k, v)]) @ map (\<lambda>x. f (fst x)) xs)"
    by (auto simp: x)
  from Cons.IH [OF this] show ?case
    by (simp add: x upd)
qed

lemma keys_to_strings_distinct:
  assumes "distinct (map (\<lambda>x. map str_elem (fst x)) res)"
  shows "keys_to_strings res = map (\<lambda>(k, v). (map str_elem k, v)) res"
  using fold_update_fresh [of "[]" "map str_elem" res] assms
  by (simp add: keys_to_strings_def)

lemma str_elem_nodes_inj:
  "list_all is_node k \<Longrightarrow> list_all is_node k' \<Longrightarrow> map str_elem k = map str_elem k' \<Longrightarrow> k = k'"
proof (induction k arbitrary: k')
  case Nil
  then show ?case by simp
next
  case (Cons a k)
  then obtain a' k'' where k': "k' = a' # k''" by (cases k') auto
  with Cons.prems obtain n n' where "a = ENode n" "a' = ENode n'"
    by (cases a; cases a') auto
  with Cons k' show ?case by (auto simp: label_inj)
qed

text \<open>
  Claim C7. With \<^verbatim>\<open>keys_as_strings\<close> set, \<^verbatim>\<open>results_to_dict\<close> fails exactly when it fails
  without, and with the same exception. When it returns and every key is a tuple of
  nodes, the dictionary returned with \<^verbatim>\<open>keys_as_strings\<close> set holds the same entries in
  the same order, each under the tuple of the labels of its key.
\<close>

theorem keys_as_strings_rekeys:
  "(results_to_dict ti om True = Inl e \<longleftrightarrow> results_to_dict ti om False = Inl e) \<and>
   (results_to_dict ti om False = Inr res \<and>
    (\<forall>k v. (Objects k, v) \<in> set res \<longrightarrow> list_all is_node k) \<longrightarrow>
      results_to_dict ti om True = Inr (map (\<lambda>(k, v). (stringify k, v)) res))"
proof (intro conjI impI)
  show "results_to_dict ti om True = Inl e \<longleftrightarrow> results_to_dict ti om False = Inl e"
    by (auto simp: results_to_dict_def split: sum.splits)
next
  assume a: "results_to_dict ti om False = Inr res \<and>
    (\<forall>k v. (Objects k, v) \<in> set res \<longrightarrow> list_all is_node k)"
  then obtain results res' where as: "assemble ti om = Inr results"
    and ad: "add_duals ti om results = Inr res'"
    and res: "res = map (\<lambda>(k, v). (Objects k, v)) res'"
    by (auto simp: results_to_dict_def split: sum.splits)
  from as obtain df where df: "results_to_df om = Inr df"
    by (auto simp: assemble_def split: sum.splits)
  from assemble_Inr(1) [OF df as] have "distinct (map fst results)" by simp
  with ad have d: "distinct (map fst res')" by (rule add_duals_distinct)
  have nodes: "list_all is_node k" if "k \<in> fst ` set res'" for k
  proof -
    from that obtain v where "(k, v) \<in> set res'" by auto
    then have "(Objects k, v) \<in> set res" unfolding res by force
    with a show ?thesis by blast
  qed
  have "inj_on (map str_elem) (fst ` set res')"
    by (rule inj_onI) (use nodes str_elem_nodes_inj in blast)
  then have "inj_on (map str_elem) (set (map fst res'))" by simp
  with d have "distinct (map (map str_elem) (map fst res'))"
    unfolding distinct_map [of "map str_elem" "map fst res'"] by blast
  then have "distinct (map (\<lambda>x. map str_elem (fst x)) res')"
    by (simp add: comp_def)
  then have ks: "keys_to_strings res' = map (\<lambda>(k, v). (map str_elem k, v)) res'"
    by (rule keys_to_strings_distinct)
  have "results_to_dict ti om True = Inr (map (\<lambda>(k, v). (Strings k, v)) (keys_to_strings res'))"
    using as ad by (simp add: results_to_dict_def)
  also have "map (\<lambda>(k, v). (Strings k, v)) (keys_to_strings res')
      = map (\<lambda>(k, v). (stringify k, v)) res"
    unfolding ks res by (simp add: case_prod_beta)
  finally show "results_to_dict ti om True = Inr (map (\<lambda>(k, v). (stringify k, v)) res)" .
qed

theorem keys_as_strings_rekeys_witness:
  "results_to_dict three_steps electricity_example False
     = Inr [(Objects [ENode (Node ''electricity'')],
             \<lparr>scalars = [],
              sequences = \<lparr>index = three_steps,
                           columns = [(''excess'', [Some 0, Some 4, Some 0])]\<rparr>\<rparr>)] \<and>
   results_to_dict three_steps electricity_example True
     = Inr [(Strings [''electricity''],
             \<lparr>scalars = [],
              sequences = \<lparr>index = three_steps,
                           columns = [(''excess'', [Some 0, Some 4, Some 0])]\<rparr>\<rparr>)]"
proof -
  let ?en = "\<lparr>scalars = [],
              sequences = \<lparr>index = three_steps,
                           columns = [(''excess'', [Some (0 :: real), Some 4, Some 0])]\<rparr>\<rparr>"
  have a: "results_to_dict three_steps electricity_example False
     = Inr [(Objects [ENode (Node ''electricity'')], ?en)]"
    by code_simp
  have b: "\<forall>k v. (Objects k, v) \<in> set [(Objects [ENode (Node ''electricity'')], ?en)]
             \<longrightarrow> list_all is_node k"
    by simp
  from keys_as_strings_rekeys
    [where ti = three_steps and om = electricity_example
       and res = "[(Objects [ENode (Node ''electricity'')], ?en)]"] a b
  have "results_to_dict three_steps electricity_example True
     = Inr (map (\<lambda>(k, v). (stringify k, v)) [(Objects [ENode (Node ''electricity'')], ?en)])"
    by blast
  with a show ?thesis by simp
qed


end
